theory Spec2Isabelle
  imports Main "HOL-Library.Multiset" "HOL-Library.Char_ord" "HOL-Library.List_Lexorder"
begin

section \<open>Python strings\<close>

text \<open>
  A Python \<open>str\<close> is modelled as a \<open>string\<close>; a \<open>char\<close> stands for the code point
  of the same number, so the model covers the code points U+0000 to U+00FF.
  \<open>cp\<close> reads the code point of a character.
\<close>

definition cp :: "char \<Rightarrow> nat" where
  "cp c = of_char c"

text \<open>\<open>str.isspace\<close> on one code point below U+0100.\<close>

definition is_space :: "char \<Rightarrow> bool" where
  "is_space c = ((9 \<le> cp c \<and> cp c \<le> 13) \<or> (28 \<le> cp c \<and> cp c \<le> 32)
                 \<or> cp c = 133 \<or> cp c = 160)"

text \<open>\<open>str.lower\<close> on the code points below U+0100, where it works character by
  character: A to Z and the capital letters U+00C0 to U+00DE (U+00D7 is the
  multiplication sign) move up by 32; every other code point below U+0100 stays. Beyond
  U+00FF \<open>str.lower\<close> depends on the context (the capital sigma) and is outside the
  model.\<close>

definition lower_char :: "char \<Rightarrow> char" where
  "lower_char c =
     (if (65 \<le> cp c \<and> cp c \<le> 90) \<or> (192 \<le> cp c \<and> cp c \<le> 222 \<and> cp c \<noteq> 215)
      then char_of (cp c + 32) else c)"

definition py_lower :: "string \<Rightarrow> string" where
  "py_lower s = map lower_char s"

text \<open>\<open>s.strip()\<close> removes leading and trailing whitespace; \<open>s.strip(chars)\<close>
  removes leading and trailing characters of \<open>chars\<close>.\<close>

definition strip_chars :: "(char \<Rightarrow> bool) \<Rightarrow> string \<Rightarrow> string" where
  "strip_chars P s = rev (dropWhile P (rev (dropWhile P s)))"

definition py_strip :: "string \<Rightarrow> string" where
  "py_strip s = strip_chars is_space s"

text \<open>\<open>s.startswith(p)\<close>, \<open>s.endswith(p)\<close> and the substring test \<open>p in s\<close>.\<close>

definition startswith :: "string \<Rightarrow> string \<Rightarrow> bool" where
  "startswith s p = (take (length p) s = p)"

definition endswith :: "string \<Rightarrow> string \<Rightarrow> bool" where
  "endswith s p = startswith (rev s) (rev p)"

fun contains :: "string \<Rightarrow> string \<Rightarrow> bool" where
  "contains [] p = (p = [])"
| "contains (c # cs) p = (startswith (c # cs) p \<or> contains cs p)"

text \<open>\<open>s.split(c)\<close> for a separator of one character: the fields between the
  separators, at least one field. \<open>first_field c s\<close> is \<open>s.split(c)[0]\<close>.\<close>

fun split_char :: "char \<Rightarrow> string \<Rightarrow> string list" where
  "split_char c [] = [[]]"
| "split_char c (x # xs) =
     (if x = c then [] # split_char c xs
      else (case split_char c xs of
              [] \<Rightarrow> [[x]]
            | f # fs \<Rightarrow> (x # f) # fs))"

definition first_field :: "char \<Rightarrow> string \<Rightarrow> string" where
  "first_field c s = (case split_char c s of [] \<Rightarrow> [] | f # fs \<Rightarrow> f)"

text \<open>\<open>any(k in s for k in ks)\<close>.\<close>

definition any_in :: "string list \<Rightarrow> string \<Rightarrow> bool" where
  "any_in ks s = list_ex (contains s) ks"

section \<open>Extractor: candidate generation\<close>

text \<open>A template is the local part and the at sign followed by the placeholder
  \<open>{domain}\<close>; it is kept as the text before the placeholder, and
  \<open>format_template\<close> is \<open>template.format(domain=d)\<close>.\<close>

definition format_template :: "string \<Rightarrow> string \<Rightarrow> string" where
  "format_template t d = t @ d"

definition common_formats :: "string list" where
  "common_formats =
     [''info@'', ''contact@'', ''hello@'', ''support@'', ''sales@'', ''admin@'',
      ''team@'', ''office@'', ''help@'', ''service@'', ''inquiry@'', ''general@'',
      ''main@'', ''primary@'']"

definition industry_patterns :: "(string \<times> string list) list" where
  "industry_patterns =
     [(''tech'', [''dev@'', ''tech@'', ''engineering@'', ''developers@'']),
      (''media'', [''press@'', ''media@'', ''news@'', ''editor@'']),
      (''finance'', [''finance@'', ''accounting@'', ''billing@'', ''payments@'']),
      (''healthcare'', [''medical@'', ''health@'', ''patient@'', ''clinic@'']),
      (''education'', [''academic@'', ''education@'', ''student@'', ''faculty@'']),
      (''retail'', [''store@'', ''shop@'', ''orders@'', ''customers@''])]"

definition tech_keywords :: "string list" where
  "tech_keywords = [''tech'', ''software'', ''app'', ''dev'', ''code'', ''digital'', ''it'', ''computer'']"

definition media_keywords :: "string list" where
  "media_keywords = [''media'', ''news'', ''press'', ''blog'', ''content'', ''publishing'']"

definition finance_keywords :: "string list" where
  "finance_keywords = [''bank'', ''finance'', ''financial'', ''investment'', ''capital'', ''money'']"

definition healthcare_keywords :: "string list" where
  "healthcare_keywords = [''health'', ''medical'', ''clinic'', ''hospital'', ''doctor'', ''care'']"

definition education_keywords :: "string list" where
  "education_keywords = [''edu'', ''university'', ''college'', ''school'', ''academy'', ''institute'']"

definition retail_keywords :: "string list" where
  "retail_keywords = [''shop'', ''store'', ''market'', ''commerce'', ''retail'', ''buy'']"

definition detect_industry :: "string \<Rightarrow> string" where
  "detect_industry domain =
     (if any_in tech_keywords domain then ''tech''
      else if any_in media_keywords domain then ''media''
      else if any_in finance_keywords domain then ''finance''
      else if any_in healthcare_keywords domain then ''healthcare''
      else if any_in education_keywords domain then ''education''
      else if any_in retail_keywords domain then ''retail''
      else ''general'')"

definition generate_industry_emails :: "string \<Rightarrow> string list" where
  "generate_industry_emails domain =
     (let domain_lower = py_lower domain;
          industry = detect_industry domain_lower
      in case map_of industry_patterns industry of
           Some patterns \<Rightarrow> map (\<lambda>pattern. format_template pattern domain) patterns
         | None \<Rightarrow> [])"

text \<open>\<open>_generate_company_emails\<close> fills the local list \<open>emails\<close> with the
  shortened-name addresses and returns \<open>company_emails\<close>.\<close>

definition generate_company_emails :: "string \<Rightarrow> string list" where
  "generate_company_emails domain =
     (let company_name = first_field (CHR ''.'') domain;
          company_emails =
            [company_name @ ''@'' @ domain,
             ''info@'' @ company_name @ ''.com'',
             ''contact@'' @ company_name @ ''.com'',
             ''hello@'' @ company_name @ ''.com''];
          emails =
            (if length company_name > 3
             then (let short_name = take 3 company_name
                   in [short_name @ ''@'' @ domain, ''info@'' @ short_name @ ''.com''])
             else [])
      in company_emails)"

definition clean_domain :: "string \<Rightarrow> string" where
  "clean_domain domain =
     (let d = py_strip (py_lower domain)
      in if startswith d ''www.'' then drop 4 d else d)"

definition generate_common_emails :: "string \<Rightarrow> string list" where
  "generate_common_emails domain =
     (let d = clean_domain domain
      in map (\<lambda>format_template'. format_template format_template' d) common_formats
         @ generate_industry_emails d
         @ generate_company_emails d)"

section \<open>Crawler: link relevance\<close>

text \<open>
  \<open>sorted(xs, key=f, reverse=True)\<close>. Python's sort is stable; with \<open>reverse=True\<close>
  the list is reversed, sorted in ascending order of the key, and reversed again.
  \<open>sort_key\<close> is the stable ascending sort.
\<close>

definition sorted_reverse :: "('a \<Rightarrow> int) \<Rightarrow> 'a list \<Rightarrow> 'a list" where
  "sorted_reverse key xs = rev (sort_key key (rev xs))"

definition priority_keywords :: "string list" where
  "priority_keywords =
     [''contact'', ''about'', ''team'', ''staff'', ''people'', ''leadership'', ''management'',
      ''support'', ''help'', ''info'', ''news'', ''press'', ''media'', ''company'',
      ''services'', ''products'', ''solutions'', ''careers'', ''jobs'', ''hiring'']"

definition link_priority :: "string \<Rightarrow> int" where
  "link_priority link =
     (let link_lower = py_lower link;
          score = fold (\<lambda>keyword score.
                          if contains link_lower keyword then score + 10 else score)
                       priority_keywords 0;
          score = (if any_in [''/'', ''/home'', ''/index''] link_lower
                   then score + 5 else score);
          path_depth = int (count_list link (CHR ''/'')) - 2
      in score - path_depth)"

definition prioritize_links_by_relevance :: "string list \<Rightarrow> string list" where
  "prioritize_links_by_relevance links = sorted_reverse link_priority links"

section \<open>Regular expressions\<close>

text \<open>
  The patterns of the program are values of \<open>rx\<close>, and \<open>rx_match\<close> is a backtracking
  matcher in the manner of Python's \<open>re\<close>: from a position it returns every way the
  pattern can match there, in the order in which backtracking tries them, so the head of
  the list is the match that \<open>re\<close> reports. A position is the character before it
  (none at the start of the text), the text from it on, and the groups captured so far.
\<close>

datatype rx =
    Cls "char \<Rightarrow> bool"
  | Seq rx rx
  | Star rx
  | LazyStar rx
  | Opt rx
  | Grp rx
  | Bol
  | Eol
  | WordB

type_synonym mstate = "char option \<times> string \<times> string list"

definition rest :: "mstate \<Rightarrow> string" where
  "rest st = fst (snd st)"

text \<open>\<open>\w\<close> on one code point below U+0100: alphanumeric or the underscore.\<close>

definition is_word :: "char \<Rightarrow> bool" where
  "is_word c =
     ((48 \<le> cp c \<and> cp c \<le> 57) \<or> (65 \<le> cp c \<and> cp c \<le> 90) \<or> cp c = 95
      \<or> (97 \<le> cp c \<and> cp c \<le> 122)
      \<or> cp c = 170 \<or> cp c = 178 \<or> cp c = 179 \<or> cp c = 181 \<or> cp c = 185 \<or> cp c = 186
      \<or> (188 \<le> cp c \<and> cp c \<le> 190)
      \<or> (192 \<le> cp c \<and> cp c \<le> 214) \<or> (216 \<le> cp c \<and> cp c \<le> 246) \<or> 248 \<le> cp c)"

definition word_before :: "char option \<Rightarrow> bool" where
  "word_before p = (case p of None \<Rightarrow> False | Some c \<Rightarrow> is_word c)"

definition word_after :: "string \<Rightarrow> bool" where
  "word_after s = (case s of [] \<Rightarrow> False | c # cs \<Rightarrow> is_word c)"

text \<open>
  Greedy and lazy repetition. An iteration that consumes nothing is not repeated; every
  repeated pattern of this program consumes one character.
\<close>

function star_greedy :: "(mstate \<Rightarrow> mstate list) \<Rightarrow> mstate \<Rightarrow> mstate list" where
  "star_greedy f st =
     concat (map (star_greedy f)
                 (filter (\<lambda>st'. length (rest st') < length (rest st)) (f st))) @ [st]"
  by pat_completeness auto
termination
  by (relation "measure (\<lambda>(f, st). length (rest st))") auto

function star_lazy :: "(mstate \<Rightarrow> mstate list) \<Rightarrow> mstate \<Rightarrow> mstate list" where
  "star_lazy f st =
     st # concat (map (star_lazy f)
                      (filter (\<lambda>st'. length (rest st') < length (rest st)) (f st)))"
  by pat_completeness auto
termination
  by (relation "measure (\<lambda>(f, st). length (rest st))") auto

declare star_greedy.simps [simp del]
declare star_lazy.simps [simp del]

primrec rx_match :: "rx \<Rightarrow> mstate \<Rightarrow> mstate list" where
  "rx_match (Cls P) st =
     (case st of (p, s, g) \<Rightarrow>
        (case s of [] \<Rightarrow> [] | c # cs \<Rightarrow> if P c then [(Some c, cs, g)] else []))"
| "rx_match (Seq a b) st = concat (map (rx_match b) (rx_match a st))"
| "rx_match (Star a) st = star_greedy (rx_match a) st"
| "rx_match (LazyStar a) st = star_lazy (rx_match a) st"
| "rx_match (Opt a) st = rx_match a st @ [st]"
| "rx_match (Grp a) st =
     map (\<lambda>st'. case st' of (p', s', g') \<Rightarrow>
            (p', s', g' @ [take (length (rest st) - length s') (rest st)]))
         (rx_match a st)"
| "rx_match Bol st = (case st of (p, s, g) \<Rightarrow> if p = None then [st] else [])"
| "rx_match Eol st =
     (case st of (p, s, g) \<Rightarrow> if s = [] \<or> s = [CHR 0x0A] then [st] else [])"
| "rx_match WordB st =
     (case st of (p, s, g) \<Rightarrow> if word_before p \<noteq> word_after s then [st] else [])"

text \<open>Pattern syntax: \<open>a+\<close>, \<open>a{n,}\<close>, a literal text, a literal text under
  \<open>re.IGNORECASE\<close>, a character class given by its ranges and its single characters,
  the dot (any character but the newline), \<open>\s\<close>.\<close>

definition Plus :: "rx \<Rightarrow> rx" where
  "Plus a = Seq a (Star a)"

primrec AtLeast :: "nat \<Rightarrow> rx \<Rightarrow> rx" where
  "AtLeast 0 a = Star a"
| "AtLeast (Suc n) a = Seq a (AtLeast n a)"

fun Lit :: "string \<Rightarrow> rx" where
  "Lit [] = Opt (Cls (\<lambda>c. False))"
| "Lit [x] = Cls (\<lambda>c. c = x)"
| "Lit (x # xs) = Seq (Cls (\<lambda>c. c = x)) (Lit xs)"

fun LitI :: "string \<Rightarrow> rx" where
  "LitI [] = Opt (Cls (\<lambda>c. False))"
| "LitI [x] = Cls (\<lambda>c. lower_char c = lower_char x)"
| "LitI (x # xs) = Seq (Cls (\<lambda>c. lower_char c = lower_char x)) (LitI xs)"

definition in_class :: "(char \<times> char) list \<Rightarrow> string \<Rightarrow> char \<Rightarrow> bool" where
  "in_class ranges singles c =
     (list_ex (\<lambda>(lo, hi). cp lo \<le> cp c \<and> cp c \<le> cp hi) ranges \<or> c \<in> set singles)"

definition Dot :: rx where
  "Dot = Cls (\<lambda>c. c \<noteq> CHR 0x0A)"

definition Space :: rx where
  "Space = Cls is_space"

fun Seqs :: "rx list \<Rightarrow> rx" where
  "Seqs [] = Opt (Cls (\<lambda>c. False))"
| "Seqs [a] = a"
| "Seqs (a # as) = Seq a (Seqs as)"

text \<open>
  \<open>pattern.match(s)\<close> tries the pattern at the start of \<open>s\<close>; \<open>re.search\<close> tries
  it at every position from the left. Both are used for their truth value only.
\<close>

definition re_match :: "rx \<Rightarrow> string \<Rightarrow> bool" where
  "re_match r s = (rx_match r (None, s, []) \<noteq> [])"

fun search_from :: "rx \<Rightarrow> char option \<Rightarrow> string \<Rightarrow> bool" where
  "search_from r p [] = (rx_match r (p, [], []) \<noteq> [])"
| "search_from r p (c # cs) =
     (rx_match r (p, c # cs, []) \<noteq> [] \<or> search_from r (Some c) cs)"

definition re_search :: "rx \<Rightarrow> string \<Rightarrow> bool" where
  "re_search r s = search_from r None s"

text \<open>
  Scanning for the matches that do not overlap, from the left, as \<open>findall\<close> and
  \<open>sub\<close> do: a \<open>Hit\<close> carries the matched text and its groups, a \<open>Gap\<close> a character
  that no match covers. After a match that consumed nothing the scan moves on by one
  character; no pattern of this program matches the empty text.
\<close>

datatype token = Gap char | Hit string "string list"

function re_scan :: "rx \<Rightarrow> char option \<Rightarrow> string \<Rightarrow> token list" where
  "re_scan r p s =
     (case rx_match r (p, s, []) of
        [] \<Rightarrow> (case s of [] \<Rightarrow> [] | c # cs \<Rightarrow> Gap c # re_scan r (Some c) cs)
      | st' # others \<Rightarrow>
          (case st' of (p', s', g) \<Rightarrow>
             if length s' < length s
             then Hit (take (length s - length s') s) g # re_scan r p' s'
             else (case s of [] \<Rightarrow> [Hit [] g]
                   | c # cs \<Rightarrow> Hit [] g # Gap c # re_scan r (Some c) cs)))"
  by pat_completeness auto
termination
  by (relation "measure (\<lambda>(r, p, s). length s)") auto

declare re_scan.simps [simp del]

text \<open>\<open>findall\<close> gives, for each match, the text of the whole match (a pattern
  without groups) or of its groups; \<open>re.sub\<close> with a literal replacement.\<close>

definition findall :: "rx \<Rightarrow> string \<Rightarrow> string list" where
  "findall r s = concat (map (\<lambda>t. case t of Gap c \<Rightarrow> [] | Hit m g \<Rightarrow> [m]) (re_scan r None s))"

definition findall_groups :: "rx \<Rightarrow> string \<Rightarrow> string list list" where
  "findall_groups r s =
     concat (map (\<lambda>t. case t of Gap c \<Rightarrow> [] | Hit m g \<Rightarrow> [g]) (re_scan r None s))"

definition re_sub :: "rx \<Rightarrow> string \<Rightarrow> string \<Rightarrow> string" where
  "re_sub r repl s =
     concat (map (\<lambda>t. case t of Gap c \<Rightarrow> [c] | Hit m g \<Rightarrow> repl) (re_scan r None s))"

section \<open>Verifier\<close>

text \<open>\<open>str(n)\<close> for an integer.\<close>

function str_nat :: "nat \<Rightarrow> string" where
  "str_nat n = (if n < 10 then [char_of (48 + n)]
                else str_nat (n div 10) @ [char_of (48 + n mod 10)])"
  by pat_completeness auto
termination
  by (relation "measure id") auto

declare str_nat.simps [simp del]

definition str_int :: "int \<Rightarrow> string" where
  "str_int i = (if i < 0 then ''-'' @ str_nat (nat (- i)) else str_nat (nat i))"

text \<open>\<open>sep.join(xs)\<close>.\<close>

fun join :: "string \<Rightarrow> string list \<Rightarrow> string" where
  "join sep [] = []"
| "join sep [x] = x"
| "join sep (x # xs) = x @ sep @ join sep xs"

definition alnum :: "(char \<times> char) list" where
  "alnum = [(CHR ''a'', CHR ''z''), (CHR ''A'', CHR ''Z''), (CHR ''0'', CHR ''9'')]"

text \<open>The pattern
  \<^verbatim>\<open>^[a-zA-Z0-9]([a-zA-Z0-9._+-]*[a-zA-Z0-9])?@[a-zA-Z0-9]([a-zA-Z0-9.-]*[a-zA-Z0-9])?\.[a-zA-Z]{2,}$\<close>.\<close>

definition email_pattern :: rx where
  "email_pattern =
     Seqs [Bol,
           Cls (in_class alnum []),
           Opt (Grp (Seq (Star (Cls (in_class alnum ''._+-''))) (Cls (in_class alnum [])))),
           Lit ''@'',
           Cls (in_class alnum []),
           Opt (Grp (Seq (Star (Cls (in_class alnum ''.-''))) (Cls (in_class alnum [])))),
           Lit ''.'',
           AtLeast 2 (Cls (in_class [(CHR ''a'', CHR ''z''), (CHR ''A'', CHR ''Z'')] [])),
           Eol]"

definition disposable_domains :: "string set" where
  "disposable_domains =
     {''10minutemail.com'', ''tempmail.org'', ''guerrillamail.com'', ''mailinator.com'',
      ''throwaway.email'', ''temp-mail.org'', ''getnada.com'', ''maildrop.cc'',
      ''yopmail.com'', ''tempail.com'', ''sharklasers.com'', ''guerrillamailblock.com''}"

definition reputable_domains :: "string set" where
  "reputable_domains =
     {''gmail.com'', ''yahoo.com'', ''outlook.com'', ''hotmail.com'', ''icloud.com'',
      ''aol.com'', ''protonmail.com'', ''zoho.com'', ''fastmail.com''}"

text \<open>\<open>_validate_email_format\<close>. After the test on the number of at signs the
  split has two fields; the last branch of the case is never taken
  (lemma \<open>split_char_two\<close>).\<close>

definition validate_email_format :: "string \<Rightarrow> bool \<times> string" where
  "validate_email_format email =
     (if email = [] then (False, ''Empty or invalid input'')
      else if \<not> contains email ''@'' \<or> count_list email (CHR ''@'') \<noteq> 1
      then (False, ''Invalid email structure'')
      else (case split_char (CHR ''@'') email of
              [local, domain] \<Rightarrow>
                if local = [] \<or> length local > 64 then (False, ''Invalid local part'')
                else if domain = [] \<or> length domain > 253 then (False, ''Invalid domain part'')
                else if contains email ''..'' then (False, ''Consecutive dots not allowed'')
                else if \<not> re_match email_pattern email
                then (False, ''Invalid characters or format'')
                else if \<not> contains domain ''.'' then (False, ''Domain must have TLD'')
                else (let tld = last (split_char (CHR ''.'') domain)
                      in if length tld < 2 then (False, ''TLD too short'')
                         else (True, ''Valid format''))
            | _ \<Rightarrow> (False, ''Invalid email structure'')))"

text \<open>The patterns \<^verbatim>\<open>temp.*mail\<close>, \<^verbatim>\<open>throw.*away\<close>, \<^verbatim>\<open>fake.*mail\<close>,
  \<^verbatim>\<open>test.*mail\<close>, \<^verbatim>\<open>no.*reply\<close>, \<^verbatim>\<open>noreply\<close>, \<^verbatim>\<open>do.*not.*reply\<close>, searched
  under \<open>re.IGNORECASE\<close>.\<close>

definition disposable_patterns :: "rx list" where
  "disposable_patterns =
     [Seqs [LitI ''temp'', Star Dot, LitI ''mail''],
      Seqs [LitI ''throw'', Star Dot, LitI ''away''],
      Seqs [LitI ''fake'', Star Dot, LitI ''mail''],
      Seqs [LitI ''test'', Star Dot, LitI ''mail''],
      Seqs [LitI ''no'', Star Dot, LitI ''reply''],
      LitI ''noreply'',
      Seqs [LitI ''do'', Star Dot, LitI ''not'', Star Dot, LitI ''reply'']]"

definition check_disposable_email :: "string \<Rightarrow> bool \<times> string" where
  "check_disposable_email domain =
     (if domain \<in> disposable_domains then (True, ''Known disposable domain: '' @ domain)
      else if list_ex (\<lambda>pattern. re_search pattern domain) disposable_patterns
      then (True, ''Disposable pattern detected: '' @ domain)
      else (False, ''Not disposable''))"

text \<open>The patterns \<^verbatim>\<open>[0-9]{4,}\<close>, \<^verbatim>\<open>[a-z]{1,2}[0-9]{3,}\<close> and
  \<^verbatim>\<open>[0-9]{3,}[a-z]{1,2}\<close>.\<close>

definition digit :: rx where
  "digit = Cls (in_class [(CHR ''0'', CHR ''9'')] [])"

definition lower_letter :: rx where
  "lower_letter = Cls (in_class [(CHR ''a'', CHR ''z'')] [])"

definition suspicious_patterns :: "rx list" where
  "suspicious_patterns =
     [AtLeast 4 digit,
      Seqs [lower_letter, Opt lower_letter, AtLeast 3 digit],
      Seqs [AtLeast 3 digit, lower_letter, Opt lower_letter]]"

definition check_domain_reputation :: "string \<Rightarrow> int \<times> string" where
  "check_domain_reputation domain =
     (if domain \<in> reputable_domains then (90, ''High reputation domain: '' @ domain)
      else if list_ex (\<lambda>pattern. re_search pattern domain) suspicious_patterns
      then (20, ''Suspicious pattern: '' @ domain)
      else if length domain < 5 then (30, ''Very short domain: '' @ domain)
      else if length domain > 30 then (40, ''Very long domain: '' @ domain)
      else (60, ''Unknown domain: '' @ domain))"

definition calculate_enhanced_confidence ::
  "bool \<Rightarrow> bool \<Rightarrow> bool \<Rightarrow> int \<Rightarrow> string \<Rightarrow> int" where
  "calculate_enhanced_confidence format_valid mx_valid smtp_valid reputation_score domain =
     (let base_score = 0
      in if \<not> format_valid then 0
         else (let base_score = base_score + 20
               in if \<not> mx_valid then 0
                  else (let base_score = base_score + 30;
                            base_score = (if smtp_valid then base_score + 20 else base_score);
                            base_score = base_score + min reputation_score 30;
                            base_score = (if domain \<in> reputable_domains
                                          then base_score + 10 else base_score);
                            base_score = (if length domain < 5 \<or> length domain > 30
                                          then base_score - 10 else base_score)
                        in min (max base_score 0) 100)))"

text \<open>\<open>email.split('@')[1].lower()\<close>, read after the format validation has passed,
  when the split has two fields.\<close>

definition email_domain :: "string \<Rightarrow> string" where
  "email_domain email =
     (case split_char (CHR ''@'') email of
        f # d # fs \<Rightarrow> py_lower d
      | _ \<Rightarrow> [])"

text \<open>
  \<open>verify_email\<close>. The verifier's \<open>mock_dns\<close> flag is the first argument. The MX
  lookup of \<open>_check_mx_record\<close> goes to the network through the resolver library; it is
  the second argument, a function from the domain to the pair that
  \<open>_check_mx_record\<close> returns.
\<close>

definition verify_email ::
  "bool \<Rightarrow> (string \<Rightarrow> bool \<times> string) \<Rightarrow> string \<Rightarrow> bool \<times> int \<times> string" where
  "verify_email mock_dns check_mx_record email =
     (case validate_email_format email of (format_valid, format_reason) \<Rightarrow>
      if \<not> format_valid then (False, 0, ''Format invalid: '' @ format_reason)
      else
        (let domain = email_domain email
         in case check_disposable_email domain of (disposable_check, disposable_reason) \<Rightarrow>
            if disposable_check then (False, 10, ''Disposable email: '' @ disposable_reason)
            else
              (case check_domain_reputation domain of (reputation_score, reputation_reason) \<Rightarrow>
               case (if mock_dns then (True, ''Mock DNS - assumed valid'')
                     else check_mx_record domain) of (mx_valid, mx_reason) \<Rightarrow>
               if \<not> mx_valid then (False, 0, ''MX check failed: '' @ mx_reason)
               else
                 (let smtp_valid = True;
                      confidence = calculate_enhanced_confidence
                                     format_valid mx_valid smtp_valid reputation_score domain;
                      is_valid = (format_valid \<and> mx_valid \<and> confidence > 30
                                  \<and> \<not> disposable_check);
                      reasons = (if format_valid then [''Format: OK''] else [])
                              @ (if mx_valid then [''MX: OK''] else [])
                              @ (if smtp_valid then [''SMTP: OK''] else [])
                              @ (if reputation_score > 0
                                 then [''Reputation: '' @ str_int reputation_score @ ''/100'']
                                 else [])
                              @ (if \<not> disposable_check then [''Not disposable''] else []);
                      reason = join '', '' reasons
                  in (is_valid, confidence, reason)))))"

section \<open>Extractor: normalization\<close>

text \<open>The patterns \<^verbatim>\<open>\s*@\s*\<close> and \<^verbatim>\<open>\s*\.\s*\<close> are \<open>around c\<close> for the at
  sign and the dot.\<close>

definition around :: "char \<Rightarrow> rx" where
  "around c = Seqs [Star Space, Lit [c], Star Space]"

definition normalize_email :: "string \<Rightarrow> string" where
  "normalize_email email =
     (if email = [] then []
      else (let email = strip_chars (\<lambda>c. c \<in> set ''()'') email;
                email = re_sub (around (CHR ''@'')) ''@'' email;
                email = re_sub (around (CHR ''.'')) ''.'' email;
                email = py_strip email
            in py_lower email))"

section \<open>Extractor: recognition\<close>

text \<open>The character classes \<^verbatim>\<open>[A-Za-z0-9._%+-]\<close>, \<^verbatim>\<open>[A-Za-z0-9.-]\<close> and
  \<^verbatim>\<open>[A-Z|a-z]\<close> (the bar is a member of the class).\<close>

definition local_chars :: rx where
  "local_chars = Cls (in_class [(CHR ''A'', CHR ''Z''), (CHR ''a'', CHR ''z''), (CHR ''0'', CHR ''9'')] ''._%+-'')"

definition domain_chars :: rx where
  "domain_chars = Cls (in_class [(CHR ''A'', CHR ''Z''), (CHR ''a'', CHR ''z''), (CHR ''0'', CHR ''9'')] ''.-'')"

definition tld_chars :: rx where
  "tld_chars = Cls (in_class [(CHR ''A'', CHR ''Z''), (CHR ''a'', CHR ''z'')] ''|'')"

text \<open>The five patterns of \<open>email_patterns\<close>, in the order of the source; the last
  two are compiled with \<open>re.I\<close>.\<close>

definition email_patterns :: "rx list" where
  "email_patterns =
     [Seqs [WordB, Plus local_chars, Lit ''@'', Plus domain_chars, Lit ''.'',
            AtLeast 2 tld_chars, WordB],
      Seqs [WordB, Plus local_chars, Star Space, Lit ''@'', Star Space, Plus domain_chars,
            Lit ''.'', AtLeast 2 tld_chars, WordB],
      Seqs [Lit ''('', Plus local_chars, Lit ''@'', Plus domain_chars, Lit ''.'',
            AtLeast 2 tld_chars, Lit '')''],
      Seqs [WordB, Plus local_chars, Plus Space, LitI ''at'', Plus Space, Plus domain_chars,
            Plus Space, LitI ''dot'', Plus Space, AtLeast 2 tld_chars, WordB],
      Seqs [WordB, Plus local_chars, Star Space, LitI ''[at]'', Star Space, Plus domain_chars,
            Star Space, LitI ''[dot]'', Star Space, AtLeast 2 tld_chars, WordB]]"

text \<open>\<open>_is_valid_email\<close>, with the patterns \<^verbatim>\<open>^[A-Za-z0-9._%+-]+$\<close> and
  \<^verbatim>\<open>^[A-Za-z0-9.-]+\.[A-Za-z]{2,}$\<close>.\<close>

definition is_valid_email :: "string \<Rightarrow> bool" where
  "is_valid_email email =
     (if email = [] \<or> \<not> contains email ''@'' then False
      else (case split_char (CHR ''@'') email of
              [local, domain] \<Rightarrow>
                if local = [] \<or> length local > 64 then False
                else if domain = [] \<or> length domain > 255 then False
                else if \<not> re_match (Seqs [Bol, Plus local_chars, Eol]) local then False
                else if \<not> re_match
                          (Seqs [Bol, Plus domain_chars, Lit ''.'',
                                 AtLeast 2 (Cls (in_class [(CHR ''A'', CHR ''Z''),
                                                           (CHR ''a'', CHR ''z'')] [])),
                                 Eol]) domain
                then False
                else True
            | _ \<Rightarrow> False))"

text \<open>\<open>_extract_obfuscated_emails\<close>: both patterns have the three groups user,
  domain and tld, and are compiled with \<open>re.I\<close>.\<close>

definition at_dot_pattern :: rx where
  "at_dot_pattern =
     Seqs [WordB, Grp (Plus local_chars), Plus Space, LitI ''at'', Plus Space,
           Grp (Plus domain_chars), Plus Space, LitI ''dot'', Plus Space,
           Grp (AtLeast 2 tld_chars), WordB]"

definition bracket_pattern :: rx where
  "bracket_pattern =
     Seqs [WordB, Grp (Plus local_chars), Star Space, LitI ''[at]'', Star Space,
           Grp (Plus domain_chars), Star Space, LitI ''[dot]'', Star Space,
           Grp (AtLeast 2 tld_chars), WordB]"

definition obfuscated_of :: "rx \<Rightarrow> string \<Rightarrow> string set" where
  "obfuscated_of pattern content =
     set (concat (map (\<lambda>groups.
            case groups of
              [user, domain, tld] \<Rightarrow>
                (let email = user @ ''@'' @ domain @ ''.'' @ tld
                 in if is_valid_email email then [py_lower email] else [])
            | _ \<Rightarrow> [])
          (findall_groups pattern content)))"

definition extract_obfuscated_emails :: "string \<Rightarrow> string set" where
  "extract_obfuscated_emails content =
     obfuscated_of at_dot_pattern content \<union> obfuscated_of bracket_pattern content"

text \<open>\<open>_extract_emails_from_context\<close>: for each keyword the pattern is the escaped
  keyword, \<^verbatim>\<open>[^@]*?\<close>, and a group holding an address, compiled with \<open>re.I\<close>;
  \<open>findall\<close> gives the text of the group.\<close>

definition email_context_keywords :: "string list" where
  "email_context_keywords =
     [''email'', ''contact'', ''reach'', ''get in touch'', ''write to'', ''send to'',
      ''mail'', ''message'', ''inquiry'', ''question'', ''support'', ''help'']"

definition context_pattern :: "string \<Rightarrow> rx" where
  "context_pattern keyword =
     Seqs [LitI keyword, LazyStar (Cls (\<lambda>c. c \<noteq> CHR ''@'')),
           Grp (Seqs [Plus local_chars, Lit ''@'', Plus domain_chars, Lit ''.'',
                      AtLeast 2 tld_chars])]"

definition keep_valid :: "string list \<Rightarrow> string set" where
  "keep_valid matches =
     set (filter (\<lambda>clean_email. clean_email \<noteq> [] \<and> is_valid_email clean_email)
                 (map normalize_email matches))"

definition extract_emails_from_context :: "string \<Rightarrow> string set" where
  "extract_emails_from_context content =
     (\<Union>keyword \<in> set email_context_keywords.
        keep_valid (concat (findall_groups (context_pattern keyword) content)))"

definition extract_emails_from_content :: "string \<Rightarrow> string set" where
  "extract_emails_from_content content =
     (if content = [] then {}
      else (\<Union>pattern \<in> set email_patterns. keep_valid (findall pattern content))
           \<union> extract_obfuscated_emails content
           \<union> extract_emails_from_context content)"

text \<open>
  \<open>extract_emails_from_links\<close>. The parsed page is the work of the HTML library; of
  it the function reads the \<open>href\<close> values of the anchors, so the page is modelled as the
  list of these values. \<open>find_all\<close> keeps the anchors whose \<open>href\<close> matches
  \<^verbatim>\<open>^mailto:\<close> under \<open>re.I\<close>.
\<close>

definition extract_emails_from_links :: "string list option \<Rightarrow> string set" where
  "extract_emails_from_links soup =
     (case soup of
        None \<Rightarrow> {}
      | Some hrefs \<Rightarrow>
          set (concat (map (\<lambda>href.
                 if startswith href ''mailto:''
                 then (let email = drop 7 href;
                           email = first_field (CHR ''?'') email;
                           clean_email = py_lower (py_strip email)
                       in if is_valid_email clean_email then [clean_email] else [])
                 else [])
               (filter (re_search (Seq Bol (LitI ''mailto:''))) hrefs))))"

text \<open>
  \<open>extract_all_emails\<close> returns the set \<open>found_emails\<close>, the set
  \<open>generated_emails\<close> and the dictionary \<open>email_sources\<close>. \<open>tag_all S v m\<close> is the
  dictionary \<open>m\<close> after \<open>m[e] = v\<close> for every \<open>e\<close> of \<open>S\<close>. An absent or empty
  \<open>domain\<close> is \<open>None\<close> or the empty text.
\<close>

definition tag_all :: "string set \<Rightarrow> string \<Rightarrow> (string \<rightharpoonup> string) \<Rightarrow> (string \<rightharpoonup> string)" where
  "tag_all S v m = (\<lambda>e. if e \<in> S then Some v else m e)"

definition link_emails_of :: "string list option \<Rightarrow> string set" where
  "link_emails_of soup = (if soup \<noteq> None then extract_emails_from_links soup else {})"

definition generated_list_of :: "string option \<Rightarrow> string list" where
  "generated_list_of domain =
     (case domain of
        None \<Rightarrow> []
      | Some d \<Rightarrow> if d \<noteq> [] then generate_common_emails d else [])"

definition extract_all_emails ::
  "string \<Rightarrow> string list option \<Rightarrow> string option
   \<Rightarrow> string set \<times> string set \<times> (string \<rightharpoonup> string)" where
  "extract_all_emails content soup domain =
     (let content_emails = extract_emails_from_content content;
          found_emails = {} \<union> content_emails;
          email_sources = tag_all content_emails ''found'' Map.empty;
          link_emails = link_emails_of soup;
          found_emails = found_emails \<union> link_emails;
          email_sources = tag_all link_emails ''mailto_link'' email_sources;
          generated_emails_list = generated_list_of domain;
          generated_emails = {} \<union> set generated_emails_list;
          email_sources = tag_all (set generated_emails_list) ''generated'' email_sources
      in (found_emails, generated_emails, email_sources))"

section \<open>Crawler: the crawl\<close>

text \<open>\<open>s.replace(old, new)\<close> for a non-empty \<open>old\<close>, and the slice \<open>xs[:n]\<close>, which
  for a negative \<open>n\<close> drops the last \<open>-n\<close> elements.\<close>

function py_replace :: "string \<Rightarrow> string \<Rightarrow> string \<Rightarrow> string" where
  "py_replace old new [] = []"
| "py_replace old new (c # cs) =
     (if old \<noteq> [] \<and> startswith (c # cs) old
      then new @ py_replace old new (drop (length old) (c # cs))
      else c # py_replace old new cs)"
  by pat_completeness auto
termination
  by (relation "measure (\<lambda>(old, new, s). length s)") (auto simp: neq_Nil_conv)

definition slice_to :: "int \<Rightarrow> 'a list \<Rightarrow> 'a list" where
  "slice_to n xs = (if 0 \<le> n then take (nat n) xs else take (length xs - nat (- n)) xs)"

text \<open>
  The crawler's settings that decide which pages are reached; the delays and the
  timeout only pace the requests.
\<close>

record config =
  bypass_robots :: bool
  max_depth :: int
  max_pages :: int

text \<open>
  A link of a fetched page after \<open>urljoin\<close> and \<open>urlparse\<close>, both library
  functions: the parts that \<open>_is_internal_link\<close> and \<open>_clean_url\<close> read.
\<close>

record parsed_url =
  scheme :: string
  netloc :: string
  path :: string
  query :: string

text \<open>
  What \<open>_fetch_page\<close> and the parsing of the anchors give for a URL: a failed request
  (\<open>_fetch_page\<close> returns \<open>None\<close>), a page with the parsed targets of its anchors, or an
  exception that is not a request exception and so reaches the handler of
  \<open>crawl_company_website\<close>.
\<close>

datatype fetched = Failed | Page "parsed_url list" | Raised

text \<open>
  The network and the libraries, as the crawl sees them: the body of \<open>/robots.txt\<close>
  when it is served with status 200, the outcome of fetching a URL (a crawl fetches a URL
  at most once, since a URL enters the frontier only when it enters the discovered set),
  the \<open>netloc\<close> that \<open>urlparse\<close> gives for the seed URL, and the order in which
  Python iterates a set of strings.
\<close>

record world =
  robots_txt :: "string option"
  fetch :: "string \<Rightarrow> fetched"
  urlparse_netloc :: "string \<Rightarrow> string"
  iteration_order :: "string set \<Rightarrow> string list"

text \<open>
  The state of one crawl: the three sets of the crawler object, the discovered set and
  the frontier of \<open>crawl_company_website\<close>, whether an exception was raised, and, for
  the statement of the invariants only, every value that the discovered set has taken,
  the latest first.
\<close>

record crawl_state =
  visited_urls :: "string set"
  crawled_urls :: "string set"
  failed_urls :: "string set"
  discovered_urls :: "string set"
  urls_to_crawl :: "string list"
  raised :: bool
  discovered_history :: "string set list"

definition check_robots_txt :: "config \<Rightarrow> world \<Rightarrow> bool" where
  "check_robots_txt cfg w =
     (if bypass_robots cfg then True
      else (case robots_txt w of
              Some text \<Rightarrow> \<not> contains (py_lower text) ''disallow: /''
            | None \<Rightarrow> True))"

definition skip_patterns :: "string list" where
  "skip_patterns =
     [''/wp-admin/'', ''/admin/'', ''/login/'', ''/register/'', ''/signup/'',
      ''/logout/'', ''/api/'', ''/ajax/'', ''/static/'', ''/assets/'', ''/css/'',
      ''/js/'', ''/images/'', ''/img/'', ''/photos/'', ''/videos/'', ''/media/'',
      ''/download/'', ''/files/'', ''/documents/'', ''/pdf/'', ''/doc/'',
      ''/search/'', ''/filter/'', ''/sort/'', ''/page/'', ''/tag/'', ''/category/'',
      ''/archive/'', ''/feed/'', ''/rss/'', ''/sitemap'', ''/robots.txt'',
      ''/favicon.ico'', ''/apple-touch-icon'', ''/manifest.json'']"

definition skip_extensions :: "string list" where
  "skip_extensions =
     [''.pdf'', ''.doc'', ''.docx'', ''.xls'', ''.xlsx'', ''.ppt'', ''.pptx'',
      ''.zip'', ''.rar'', ''.tar'', ''.gz'', ''.jpg'', ''.jpeg'', ''.png'', ''.gif'',
      ''.svg'', ''.ico'', ''.css'', ''.js'', ''.xml'', ''.json'', ''.txt'']"

definition domain_parts :: "string \<Rightarrow> string" where
  "domain_parts domain =
     first_field (CHR ''/'') (py_replace ''http://'' [] (py_replace ''https://'' [] domain))"

definition matches_skip_pattern :: "string \<Rightarrow> bool" where
  "matches_skip_pattern link = any_in skip_patterns (py_lower link)"

definition has_skip_extension :: "string \<Rightarrow> bool" where
  "has_skip_extension link = list_ex (\<lambda>ext. endswith (py_lower link) ext) skip_extensions"

definition filter_and_prioritize_links :: "crawl_state \<Rightarrow> string list \<Rightarrow> string \<Rightarrow> string list" where
  "filter_and_prioritize_links st links domain =
     (let filtered_links =
            filter (\<lambda>link.
                      \<not> (link \<in> visited_urls st \<or> link \<in> failed_urls st)
                      \<and> contains link (domain_parts domain)
                      \<and> \<not> matches_skip_pattern link
                      \<and> \<not> has_skip_extension link)
                   links
      in prioritize_links_by_relevance filtered_links)"

text \<open>\<open>_prioritize_urls\<close>: the first occurrence of each URL is kept, the list is
  ranked and cut at \<open>max_pages\<close>.\<close>

fun unique_urls :: "string set \<Rightarrow> string list \<Rightarrow> string list" where
  "unique_urls seen [] = []"
| "unique_urls seen (url # urls) =
     (if url \<in> seen then unique_urls seen urls
      else url # unique_urls (insert url seen) urls)"

definition prioritize_urls :: "config \<Rightarrow> string list \<Rightarrow> string list" where
  "prioritize_urls cfg urls =
     slice_to (max_pages cfg) (prioritize_links_by_relevance (unique_urls {} urls))"

definition is_internal_link :: "world \<Rightarrow> parsed_url \<Rightarrow> string \<Rightarrow> bool" where
  "is_internal_link w parsed base_url = (netloc parsed = urlparse_netloc w base_url)"

definition clean_url :: "parsed_url \<Rightarrow> string" where
  "clean_url parsed =
     (let clean = scheme parsed @ ''://'' @ netloc parsed @ path parsed
      in if query parsed \<noteq> [] then clean @ ''?'' @ query parsed else clean)"

definition extract_links :: "world \<Rightarrow> parsed_url list \<Rightarrow> string \<Rightarrow> string set" where
  "extract_links w anchors base_url =
     set (map clean_url (filter (\<lambda>parsed. is_internal_link w parsed base_url) anchors))"

text \<open>The loop over \<open>filtered_links\<close> that adds new links for the next depth.\<close>

fun add_links :: "config \<Rightarrow> int \<Rightarrow> crawl_state \<Rightarrow> string list \<Rightarrow> crawl_state" where
  "add_links cfg depth st [] = st"
| "add_links cfg depth st (link # links) =
     (if link \<notin> discovered_urls st \<and> int (card (discovered_urls st)) < max_pages cfg
      then add_links cfg depth
             (st\<lparr>discovered_urls := insert link (discovered_urls st),
                 discovered_history := insert link (discovered_urls st) # discovered_history st,
                 urls_to_crawl := (if depth < max_depth cfg then urls_to_crawl st @ [link]
                                   else urls_to_crawl st)\<rparr>)
             links
      else add_links cfg depth st links)"

text \<open>The body of the loop over the batch, after the tests on the page count and on
  the visited set.\<close>

definition process_url :: "config \<Rightarrow> world \<Rightarrow> string \<Rightarrow> int \<Rightarrow> crawl_state \<Rightarrow> string \<Rightarrow> crawl_state" where
  "process_url cfg w domain depth st url =
     (case fetch w url of
        Raised \<Rightarrow> st\<lparr>raised := True\<rparr>
      | Failed \<Rightarrow> st\<lparr>failed_urls := insert url (failed_urls st)\<rparr>
      | Page anchors \<Rightarrow>
          (let st = st\<lparr>visited_urls := insert url (visited_urls st),
                       crawled_urls := insert url (crawled_urls st)\<rparr>;
               page_links = extract_links w anchors domain;
               filtered_links = filter_and_prioritize_links st
                                  (iteration_order w page_links) domain
           in add_links cfg depth st filtered_links))"

fun process_batch :: "config \<Rightarrow> world \<Rightarrow> string \<Rightarrow> int \<Rightarrow> crawl_state \<Rightarrow> string list \<Rightarrow> crawl_state" where
  "process_batch cfg w domain depth st [] = st"
| "process_batch cfg w domain depth st (url # urls) =
     (if raised st then st
      else if int (card (discovered_urls st)) \<ge> max_pages cfg then st
      else if url \<in> visited_urls st then process_batch cfg w domain depth st urls
      else process_batch cfg w domain depth (process_url cfg w domain depth st url) urls)"

fun crawl_levels :: "config \<Rightarrow> world \<Rightarrow> string \<Rightarrow> crawl_state \<Rightarrow> int list \<Rightarrow> crawl_state" where
  "crawl_levels cfg w domain st [] = st"
| "crawl_levels cfg w domain st (depth # depths) =
     (if raised st then st
      else if urls_to_crawl st = [] \<or> int (card (discovered_urls st)) \<ge> max_pages cfg then st
      else (let current_batch = urls_to_crawl st;
                st = st\<lparr>urls_to_crawl := []\<rparr>
            in crawl_levels cfg w domain
                 (process_batch cfg w domain depth st current_batch) depths))"

definition with_scheme :: "string \<Rightarrow> string" where
  "with_scheme domain =
     (if startswith domain ''http://'' \<or> startswith domain ''https://'' then domain
      else ''https://'' @ domain)"

definition initial_state :: "string \<Rightarrow> crawl_state" where
  "initial_state domain =
     \<lparr>visited_urls = {}, crawled_urls = {}, failed_urls = {},
      discovered_urls = {domain}, urls_to_crawl = [domain], raised = False,
      discovered_history = [{domain}]\<rparr>"

text \<open>The state in which the loops of \<open>crawl_company_website\<close> end, when
  \<open>robots.txt\<close> allows the crawl; the depths are \<open>range(max_depth + 1)\<close>.\<close>

definition crawl_end :: "config \<Rightarrow> world \<Rightarrow> string \<Rightarrow> crawl_state" where
  "crawl_end cfg w domain =
     crawl_levels cfg w (with_scheme domain) (initial_state (with_scheme domain))
       [0..max_depth cfg]"

definition crawl_company_website :: "config \<Rightarrow> world \<Rightarrow> string \<Rightarrow> string list" where
  "crawl_company_website cfg w domain =
     (if \<not> check_robots_txt cfg w then []
      else (let st = crawl_end cfg w domain
            in if raised st then []
               else prioritize_urls cfg (iteration_order w (discovered_urls st))))"

section \<open>Auxiliary notions for the proofs\<close>

text \<open>
  \<open>squeeze c s\<close> removes the whitespace around every \<open>c\<close> in \<open>s\<close>; it is what
  \<open>re.sub\<close> computes for the pattern \<open>around c\<close> and the replacement \<open>c\<close>
  (lemma \<open>re_sub_around\<close>). \<open>tight c s\<close> says that no \<open>c\<close> in \<open>s\<close> has whitespace
  next to it.
\<close>

function squeeze :: "char \<Rightarrow> string \<Rightarrow> string" where
  "squeeze c [] = []"
| "squeeze c (a # s) =
     (case dropWhile is_space (a # s) of
        [] \<Rightarrow> a # squeeze c s
      | c' # t \<Rightarrow> if c' = c then c # squeeze c (dropWhile is_space t) else a # squeeze c s)"
  by pat_completeness auto
termination
proof (relation "measure (\<lambda>(c, s). length s)", goal_cases)
  case (3 c a s c' t)
  have "length (dropWhile is_space t) \<le> length t"
    by (rule length_dropWhile_le)
  moreover have "length (c' # t) \<le> length (a # s)"
    using 3(1) length_dropWhile_le [of is_space "a # s"] by simp
  ultimately show ?case by simp
qed simp_all

definition tight :: "char \<Rightarrow> string \<Rightarrow> bool" where
  "tight c s = successively (\<lambda>a b. \<not> (is_space a \<and> b = c) \<and> \<not> (a = c \<and> is_space b)) s"

text \<open>The text that \<open>re.sub\<close> writes for one token of the scan.\<close>

definition tok_text :: "string \<Rightarrow> token \<Rightarrow> string" where
  "tok_text repl t = (case t of Gap c \<Rightarrow> [c] | Hit m g \<Rightarrow> repl)"

text \<open>The first pattern of \<open>email_patterns\<close>, the standard syntax.\<close>

definition standard_pattern :: rx where
  "standard_pattern = Seqs [WordB, Plus local_chars, Lit ''@'', Plus domain_chars, Lit ''.'',
            AtLeast 2 tld_chars, WordB]"


text \<open>
  The two invariants of the crawl. \<open>accepted w seed url\<close>: the URL passed the link
  filter of the crawl that started at \<open>seed\<close>. \<open>inv_size\<close>: no value that the
  discovered set has taken exceeds \<open>max_pages\<close>. \<open>inv_accepted\<close>: every discovered
  URL is the seed or was accepted.
\<close>

definition accepted :: "world \<Rightarrow> string \<Rightarrow> string \<Rightarrow> bool" where
  "accepted w seed url =
     (contains url (domain_parts seed)
      \<and> (\<exists>parsed. netloc parsed = urlparse_netloc w seed \<and> url = clean_url parsed)
      \<and> \<not> matches_skip_pattern url \<and> \<not> has_skip_extension url)"

definition inv_size :: "config \<Rightarrow> crawl_state \<Rightarrow> bool" where
  "inv_size cfg st =
     (finite (discovered_urls st)
      \<and> (\<forall>D \<in> set (discovered_history st). int (card D) \<le> max_pages cfg))"

definition inv_accepted :: "world \<Rightarrow> string \<Rightarrow> crawl_state \<Rightarrow> bool" where
  "inv_accepted w seed st =
     (finite (discovered_urls st)
      \<and> (\<forall>url \<in> discovered_urls st. url = seed \<or> accepted w seed url))"

text \<open>
  Example worlds for the concrete instances: a site whose home page links to four of its
  own pages and to one foreign page, and a network on which every request fails. Sets
  are iterated in sorted order.
\<close>

definition example_page :: "string \<Rightarrow> parsed_url" where
  "example_page p = \<lparr>scheme = ''https'', netloc = ''example.com'', path = p, query = []\<rparr>"

definition example_world :: world where
  "example_world =
     \<lparr>robots_txt = None,
      fetch = (\<lambda>url. if url = ''https://example.com''
                      then Page [example_page ''/about'', example_page ''/contact'',
                                 example_page ''/a.pdf'', example_page ''/team'',
                                 \<lparr>scheme = ''https'', netloc = ''evil.org'', path = ''/x'',
                                  query = []\<rparr>]
                      else Failed),
      urlparse_netloc = (\<lambda>url. ''example.com''),
      iteration_order = sorted_list_of_set\<rparr>"

definition offline_world :: world where
  "offline_world =
     \<lparr>robots_txt = None, fetch = (\<lambda>url. Failed),
      urlparse_netloc = (\<lambda>url. first_field (CHR ''/'') (drop 8 url)),
      iteration_order = sorted_list_of_set\<rparr>"

section \<open>Facts about the string operations\<close>

lemma cp_char_of_add32: "cp c \<le> 222 \<Longrightarrow> cp (char_of (cp c + 32)) = cp c + 32"
  by (simp add: cp_def)

lemma is_space_lower_char: "is_space (lower_char c) = is_space c"
  unfolding lower_char_def is_space_def
  by (auto simp: cp_char_of_add32)

lemma lower_char_idem: "lower_char (lower_char c) = lower_char c"
  by (auto simp: lower_char_def cp_char_of_add32)

lemma py_lower_idem: "py_lower (py_lower s) = py_lower s"
  by (simp add: py_lower_def lower_char_idem)








section \<open>Candidate generation\<close>

text \<open>
  C1. For a domain whose company token is longer than 3 characters the candidate list
  should hold the truncated-token variants \<open>short@domain\<close> and \<open>info@short.com\<close>.
  \<open>_generate_company_emails\<close> builds them in the list \<open>emails\<close> and returns
  \<open>company_emails\<close>: for \<open>example.com\<close> the token \<open>example\<close> has 7 characters, its
  first three are \<open>exa\<close>, and neither \<open>exa@example.com\<close> nor \<open>info@exa.com\<close> is in
  the list that \<open>generate_common_emails\<close> returns.
\<close>

theorem generate_common_emails_lacks_short_variants:
  "let token = first_field (CHR ''.'') (clean_domain ''example.com'');
       short = take 3 token
   in length token > 3 \<and> short = ''exa''
      \<and> short @ ''@example.com'' \<notin> set (generate_common_emails ''example.com'')
      \<and> ''info@'' @ short @ ''.com'' \<notin> set (generate_common_emails ''example.com'')"
  by code_simp




section \<open>Link relevance\<close>

text \<open>
  C2. The score should add 5 only when the path of the URL is root, home or index like.
  \<open>link_priority\<close> adds 5 when the lower-cased URL contains \<open>/\<close>, \<open>/home\<close> or
  \<open>/index\<close> anywhere, and every URL with a scheme contains \<open>/\<close>: the link
  \<open>https://example.com/blog/post-1\<close> matches no priority keyword, its path
  \<open>/blog/post-1\<close> has two segments, and its score is \<open>0 + 5 - 2 = 3\<close>, not \<open>-2\<close>.
\<close>

theorem link_priority_bonus_on_deep_path:
  "link_priority ''https://example.com/blog/post-1'' = 3
   \<and> \<not> any_in priority_keywords (py_lower ''https://example.com/blog/post-1'')
   \<and> int (count_list ''https://example.com/blog/post-1'' (CHR ''/'')) - 2 = 2"
  by code_simp

lemma sorted_reverse_filter:
  "filter (\<lambda>x. key x = k) (sorted_reverse key xs) = filter (\<lambda>x. key x = k) xs"
proof -
  have "filter (\<lambda>x. key x = k) (sorted_reverse key xs)
        = rev (filter (\<lambda>x. key x = k) (sort_key key (rev xs)))"
    by (simp add: sorted_reverse_def rev_filter)
  also have "\<dots> = rev (filter (\<lambda>x. key x = k) (rev xs))"
    by (simp only: sort_key_stable)
  also have "\<dots> = filter (\<lambda>x. key x = k) xs"
    by (simp add: rev_filter)
  finally show ?thesis .
qed

lemma sorted_reverse_descending:
  "sorted_wrt (\<lambda>a b. key a \<ge> key b) (sorted_reverse key xs)"
proof -
  have "sorted (map key (sort_key key (rev xs)))"
    by (rule sorted_sort_key)
  then have "sorted_wrt (\<lambda>a b. key a \<le> key b) (sort_key key (rev xs))"
    by (simp add: sorted_map)
  then show ?thesis
    by (simp add: sorted_reverse_def sorted_wrt_rev)
qed

lemma mset_sorted_reverse: "mset (sorted_reverse key xs) = mset xs"
  by (simp add: sorted_reverse_def)

text \<open>
  C6. Link prioritization is a stable descending sort by the relevance score: the output
  is a rearrangement of the input, the scores do not increase along the output, and for
  every score the links of that score come out in the order in which they came in.
\<close>

theorem prioritize_links_stable_descending:
  "mset (prioritize_links_by_relevance links) = mset links
   \<and> sorted_wrt (\<lambda>a b. link_priority a \<ge> link_priority b) (prioritize_links_by_relevance links)
   \<and> (\<forall>k. filter (\<lambda>l. link_priority l = k) (prioritize_links_by_relevance links)
            = filter (\<lambda>l. link_priority l = k) links)"
  unfolding prioritize_links_by_relevance_def
  using mset_sorted_reverse sorted_reverse_descending sorted_reverse_filter by blast

section \<open>Verification\<close>

lemma length_split_char: "length (split_char c s) = Suc (count_list s c)"
  by (induction s) (auto split: list.splits)

lemma split_char_two:
  assumes "count_list s c = 1"
  shows "\<exists>a b. split_char c s = [a, b]"
proof -
  have "length (split_char c s) = 2" using assms by (simp add: length_split_char)
  then show ?thesis
    by (metis (no_types, lifting) One_nat_def Suc_1 length_0_conv length_Suc_conv)
qed

lemma confidence_closed_form:
  "calculate_enhanced_confidence True True True reputation domain
   = min (max (20 + 30 + 20 + min reputation 30
               + (if domain \<in> reputable_domains then 10 else 0)
               - (if length domain < 5 \<or> length domain > 30 then 10 else 0)) 0) 100"
  by (simp add: calculate_enhanced_confidence_def Let_def)

lemma verify_email_unfold:
  "verify_email mock_dns check_mx_record email =
     (let domain = email_domain email;
          reputation = fst (check_domain_reputation domain);
          confidence = calculate_enhanced_confidence True True True reputation domain
      in if \<not> fst (validate_email_format email)
         then (False, 0, ''Format invalid: '' @ snd (validate_email_format email))
         else if fst (check_disposable_email domain)
         then (False, 10, ''Disposable email: '' @ snd (check_disposable_email domain))
         else if \<not> mock_dns \<and> \<not> fst (check_mx_record domain)
         then (False, 0, ''MX check failed: '' @ snd (check_mx_record domain))
         else (confidence > 30, confidence,
               join '', '' ([''Format: OK'', ''MX: OK'', ''SMTP: OK'']
                            @ (if reputation > 0
                               then [''Reputation: '' @ str_int reputation @ ''/100''] else [])
                            @ [''Not disposable''])))"
proof -
  obtain fv fr where v: "validate_email_format email = (fv, fr)" by fastforce
  obtain dc dr where d: "check_disposable_email (email_domain email) = (dc, dr)" by fastforce
  obtain rs rr where r: "check_domain_reputation (email_domain email) = (rs, rr)" by fastforce
  obtain mv mr where m: "check_mx_record (email_domain email) = (mv, mr)" by fastforce
  show ?thesis
    unfolding verify_email_def Let_def v d r m prod.case fst_conv snd_conv
    by (cases fv; cases dc; cases mock_dns; cases mv) (simp_all only: if_True if_False simp_thms prod.case append.simps)
qed


text \<open>
  C4. For every address whose format validation passes, whose domain is not classified
  disposable and whose MX check succeeds (it is taken as passed under mock DNS),
  \<open>verify_email\<close> returns the confidence
  \<open>clamp(20 + 30 + 20 + min(reputation, 30) + (10 if reputable) - (10 if the domain
  length is below 5 or above 30), 0, 100)\<close> and
  \<open>is_valid = (format valid and MX valid and confidence > 30 and not disposable)\<close>.
\<close>

theorem verify_email_confidence:
  assumes "fst (validate_email_format email)"
      and "\<not> fst (check_disposable_email (email_domain email))"
      and "mock_dns \<or> fst (check_mx_record (email_domain email))"
  shows "let domain = email_domain email;
             reputation = fst (check_domain_reputation domain);
             confidence = min (max (20 + 30 + 20 + min reputation 30
                                    + (if domain \<in> reputable_domains then 10 else 0)
                                    - (if length domain < 5 \<or> length domain > 30 then 10 else 0))
                                   0) 100
         in fst (snd (verify_email mock_dns check_mx_record email)) = confidence
          \<and> fst (verify_email mock_dns check_mx_record email)
              = (fst (validate_email_format email)
                 \<and> (mock_dns \<or> fst (check_mx_record domain))
                 \<and> confidence > 30
                 \<and> \<not> fst (check_disposable_email domain))"
proof -
  have "\<not> (\<not> mock_dns \<and> \<not> fst (check_mx_record (email_domain email)))"
    using assms(3) by blast
  then show ?thesis
    unfolding verify_email_unfold [of mock_dns check_mx_record email] Let_def
      confidence_closed_form
    using assms by (simp only: if_True if_False simp_thms fst_conv snd_conv)
qed

theorem verify_email_confidence_witness:
  "fst (validate_email_format ''info@gmail.com'')
   \<and> \<not> fst (check_disposable_email (email_domain ''info@gmail.com''))
   \<and> fst (snd (verify_email True (\<lambda>d. (False, ''No MX records found'')) ''info@gmail.com'')) = 100
   \<and> fst (verify_email True (\<lambda>d. (False, ''No MX records found'')) ''info@gmail.com'')"
proof -
  have a: "fst (validate_email_format ''info@gmail.com'')" by code_simp
  have b: "\<not> fst (check_disposable_email (email_domain ''info@gmail.com''))" by code_simp
  have c: "email_domain ''info@gmail.com'' = ''gmail.com''" by code_simp
  have d: "fst (check_domain_reputation ''gmail.com'') = 90" by code_simp
  have e: "''gmail.com'' \<in> reputable_domains" by code_simp
  have "True \<or> fst ((\<lambda>d. (False, ''No MX records found'')) (email_domain ''info@gmail.com''))"
    by simp
  from verify_email_confidence [OF a b this]
  show ?thesis using a b by (simp add: c d e Let_def)
qed

text \<open>
  C8. For every address that passes format validation and whose domain is in the
  disposable denylist or matches one of the disposable patterns, \<open>verify_email\<close>
  returns \<open>is_valid = False\<close>, confidence 10 and a reason that starts with
  \<open>Disposable email:\<close>, whatever the DNS mode and the resolver; the witness is the
  address \<open>x@10minutemail.com\<close>.
\<close>

theorem verify_email_disposable:
  assumes "fst (validate_email_format email)"
      and "email_domain email \<in> disposable_domains
           \<or> (\<exists>pattern \<in> set disposable_patterns. re_search pattern (email_domain email))"
  shows "verify_email mock_dns check_mx_record email
         = (False, 10,
            ''Disposable email: ''
            @ (if email_domain email \<in> disposable_domains
               then ''Known disposable domain: '' else ''Disposable pattern detected: '')
            @ email_domain email)"
proof -
  have d: "check_disposable_email (email_domain email)
           = (True, (if email_domain email \<in> disposable_domains
                     then ''Known disposable domain: '' else ''Disposable pattern detected: '')
                    @ email_domain email)"
    using assms(2) by (auto simp: check_disposable_email_def list_ex_iff)
  show ?thesis
    unfolding verify_email_unfold [of mock_dns check_mx_record email] Let_def d
    using assms(1) by (simp only: if_True if_False simp_thms fst_conv snd_conv)
qed

theorem verify_email_disposable_witness:
  "\<forall>mock_dns check_mx_record.
     fst (validate_email_format ''x@10minutemail.com'')
     \<and> email_domain ''x@10minutemail.com'' \<in> disposable_domains
     \<and> verify_email mock_dns check_mx_record ''x@10minutemail.com''
         = (False, 10, ''Disposable email: Known disposable domain: 10minutemail.com'')"
proof (intro allI)
  fix mock_dns check_mx_record
  have a: "fst (validate_email_format ''x@10minutemail.com'')" by code_simp
  have c: "email_domain ''x@10minutemail.com'' = ''10minutemail.com''" by code_simp
  have b: "''10minutemail.com'' \<in> disposable_domains" by code_simp
  from verify_email_disposable [OF a, of mock_dns check_mx_record] b c
  show "fst (validate_email_format ''x@10minutemail.com'')
     \<and> email_domain ''x@10minutemail.com'' \<in> disposable_domains
     \<and> verify_email mock_dns check_mx_record ''x@10minutemail.com''
         = (False, 10, ''Disposable email: Known disposable domain: 10minutemail.com'')"
    using a by simp
qed

text \<open>
  C10. With mock DNS the result of \<open>verify_email\<close> does not depend on the resolver:
  any two resolvers give the same triple for the same address; the triple is the one
  that a resolver which always finds MX records would give without mock DNS; and it is
  never an \<open>MX check failed\<close> result.
\<close>

theorem verify_email_mock_dns_pure:
  "verify_email True check_mx_record email = verify_email True check_mx_record' email
   \<and> verify_email True check_mx_record email
       = verify_email False (\<lambda>domain. (True, ''Mock DNS - assumed valid'')) email
   \<and> (\<forall>why. verify_email True check_mx_record email \<noteq> (False, 0, ''MX check failed: '' @ why))"
proof (intro conjI allI)
  show "verify_email True check_mx_record email = verify_email True check_mx_record' email"
    unfolding verify_email_unfold by (simp only: simp_thms if_False)
  show "verify_email True check_mx_record email
       = verify_email False (\<lambda>domain. (True, ''Mock DNS - assumed valid'')) email"
    unfolding verify_email_unfold by (simp only: simp_thms if_False fst_conv)
  fix why
  have j: "\<And>x. join '', '' ([''Format: OK'', ''MX: OK'', ''SMTP: OK''] @ x) \<noteq> ''MX check failed: '' @ why"
    by simp
  have f: "\<And>x. ''Format invalid: '' @ x \<noteq> ''MX check failed: '' @ why"
    by simp
  show "verify_email True check_mx_record email \<noteq> (False, 0, ''MX check failed: '' @ why)"
    unfolding verify_email_unfold Let_def
    by (simp only: simp_thms if_False) (simp add: j f del: join.simps append.simps)
qed

section \<open>Normalization\<close>

lemma star_cls_Nil:
  "star_greedy (rx_match (Cls P)) (p, [], g) = [(p, [], g)]"
  by (simp add: star_greedy.simps [of _ "(p, [], g)"] rest_def)

lemma star_cls_Cons:
  "star_greedy (rx_match (Cls P)) (p, a # s, g) =
     (if P a then star_greedy (rx_match (Cls P)) (Some a, s, g) @ [(p, a # s, g)]
      else [(p, a # s, g)])"
  by (simp add: star_greedy.simps [of _ "(p, a # s, g)"] rest_def)

lemma star_cls_head:
  "\<exists>q more. star_greedy (rx_match (Cls P)) (p, s, g) = (q, dropWhile P s, g) # more"
proof (induction s arbitrary: p)
  case Nil
  show ?case unfolding star_cls_Nil by simp
next
  case (Cons a s)
  show ?case
  proof (cases "P a")
    case True
    from Cons [of "Some a"] obtain q more
      where "star_greedy (rx_match (Cls P)) (Some a, s, g) = (q, dropWhile P s, g) # more"
      by blast
    then show ?thesis unfolding star_cls_Cons using True by simp
  next
    case False
    then show ?thesis unfolding star_cls_Cons by simp
  qed
qed

lemma rx_match_around:
  assumes "\<not> is_space c"
  shows "rx_match (around c) (p, s, g) =
           (case dropWhile is_space s of
              [] \<Rightarrow> []
            | c' # t \<Rightarrow> if c' = c then star_greedy (rx_match (Cls is_space)) (Some c, t, g)
                        else [])"
proof (induction s arbitrary: p)
  case Nil
  show ?case by (simp add: around_def Space_def star_cls_Nil)
next
  case (Cons a s)
  have IH: "rx_match (around c) (Some a, s, g) =
           (case dropWhile is_space s of
              [] \<Rightarrow> []
            | c' # t \<Rightarrow> if c' = c then star_greedy (rx_match (Cls is_space)) (Some c, t, g)
                        else [])"
    by (rule Cons)
  show ?case
  proof (cases "is_space a")
    case True
    then have "a \<noteq> c" using assms by auto
    then show ?thesis using True IH
      by (simp add: around_def Space_def star_cls_Cons)
  next
    case False
    then show ?thesis
      by (simp add: around_def Space_def star_cls_Cons)
  qed
qed



lemma re_sub_tok: "re_sub r repl s = concat (map (tok_text repl) (re_scan r None s))"
  by (simp add: re_sub_def tok_text_def [abs_def])

lemma length_dropWhile_tail:
  assumes "dropWhile P (a # s) = c' # t"
  shows "length (dropWhile P t) < length (a # s)"
proof -
  have "length (dropWhile P t) \<le> length t" by (rule length_dropWhile_le)
  moreover have "length (c' # t) \<le> length (a # s)"
    using assms length_dropWhile_le [of P "a # s"] by simp
  ultimately show ?thesis by simp
qed

lemma scan_around:
  assumes ns: "\<not> is_space c"
  shows "concat (map (tok_text [c]) (re_scan (around c) p s)) = squeeze c s"
  using ns
proof (induction c s arbitrary: p rule: squeeze.induct)
  case (1 c)
  have "rx_match (around c) (p, [], []) = []"
    by (simp add: rx_match_around [OF 1(1)])
  then show ?case
    by (simp add: re_scan.simps [of _ p "[]"])
next
  case (2 c a s)
  note ns = 2(4)
  note m = rx_match_around [OF ns, of p "a # s" "[]"]
  show ?case
  proof (cases "dropWhile is_space (a # s)")
    case Nil
    then have "rx_match (around c) (p, a # s, []) = []" by (simp only: m list.case)
    then have "re_scan (around c) p (a # s) = Gap a # re_scan (around c) (Some a) s"
      by (simp add: re_scan.simps [of _ p "a # s"])
    then show ?thesis
      using 2(1) [OF Nil ns, of "Some a"] Nil by (simp add: tok_text_def)
  next
    case (Cons c' t)
    show ?thesis
    proof (cases "c' = c")
      case True
      obtain q more where
        st: "star_greedy (rx_match (Cls is_space)) (Some c, t, []) = (q, dropWhile is_space t, []) # more"
        using star_cls_head by blast
      have mm: "rx_match (around c) (p, a # s, []) = (q, dropWhile is_space t, []) # more"
        by (simp only: m Cons True st list.case refl if_True)
      have lt: "length (dropWhile is_space t) < length (a # s)"
        using Cons by (rule length_dropWhile_tail)
      have "re_scan (around c) p (a # s)
            = Hit (take (length (a # s) - length (dropWhile is_space t)) (a # s)) []
              # re_scan (around c) q (dropWhile is_space t)"
        using lt by (simp add: re_scan.simps [of _ p "a # s"] mm)
      then show ?thesis
        using 2(2) [OF Cons True ns, of q] Cons True by (simp add: tok_text_def)
    next
      case False
      then have "rx_match (around c) (p, a # s, []) = []" by (simp only: m Cons list.case if_False)
      then have "re_scan (around c) p (a # s) = Gap a # re_scan (around c) (Some a) s"
        by (simp add: re_scan.simps [of _ p "a # s"])
      then show ?thesis
        using 2(3) [OF Cons False ns, of "Some a"] Cons False by (simp add: tok_text_def)
    qed
  qed
qed

lemma re_sub_around: "\<not> is_space c \<Longrightarrow> re_sub (around c) [c] s = squeeze c s"
  by (simp add: re_sub_tok scan_around)


lemma tight_Nil: "tight c []"
  by (simp add: tight_def)

lemma tight_Cons:
  "tight c (a # s) \<longleftrightarrow>
     (s = [] \<or> (\<not> (is_space a \<and> hd s = c) \<and> \<not> (a = c \<and> is_space (hd s))) \<and> tight c s)"
  unfolding tight_def by (rule successively_Cons)

lemma tight_append: "tight c (xs @ ys) \<Longrightarrow> tight c xs \<and> tight c ys"
  by (simp add: tight_def successively_append_iff)

lemma tight_rev: "tight c (rev s) = tight c s"
proof -
  have "successively (\<lambda>x y. \<not> (is_space y \<and> x = c) \<and> \<not> (y = c \<and> is_space x)) s
        = successively (\<lambda>a b. \<not> (is_space a \<and> b = c) \<and> \<not> (a = c \<and> is_space b)) s"
    by (rule arg_cong [of _ _ "\<lambda>P. successively P s"]) (intro ext, blast)
  then show ?thesis unfolding tight_def successively_rev .
qed

lemma tight_dropWhile: "tight c s \<Longrightarrow> tight c (dropWhile P s)"
  using tight_append [of c "takeWhile P s" "dropWhile P s"] by simp

lemma tight_strip: "tight c s \<Longrightarrow> tight c (strip_chars P s)"
  by (simp add: strip_chars_def tight_rev tight_dropWhile)

lemma tight_lower:
  assumes "\<And>a. lower_char a = c \<longleftrightarrow> a = c"
  shows "tight c (py_lower s) = tight c s"
  by (simp add: tight_def py_lower_def successively_map is_space_lower_char assms)

lemma lower_char_fix:
  assumes "cp c < 65"
  shows "lower_char a = c \<longleftrightarrow> a = c"
proof (cases "(65 \<le> cp a \<and> cp a \<le> 90) \<or> (192 \<le> cp a \<and> cp a \<le> 222 \<and> cp a \<noteq> 215)")
  case True
  then have "cp a \<le> 222" by auto
  then have "cp (lower_char a) = cp a + 32"
    using True cp_char_of_add32 by (simp add: lower_char_def)
  then have "cp (lower_char a) \<noteq> cp c" "cp a \<noteq> cp c" using True assms by auto
  then show ?thesis by auto
next
  case False
  then have "lower_char a = a" unfolding lower_char_def by (rule if_not_P)
  then show ?thesis by simp
qed

lemma squeeze_Nil_iff: "squeeze c s = [] \<longleftrightarrow> s = []"
  by (cases s) (auto split: list.splits)

lemma squeeze_hd_cases:
  assumes "s \<noteq> []"
  shows "hd (squeeze c s) = hd s \<or> hd (squeeze c s) = c"
  using assms by (cases s) (auto split: list.splits)

lemma squeeze_hd_c:
  assumes "s \<noteq> []" and "hd (squeeze c s) = c" and "\<not> is_space c"
  shows "\<exists>t. dropWhile is_space s = c # t"
  using assms by (cases s) (auto split: list.splits if_splits)

lemma squeeze_hd_nonspace:
  assumes "s \<noteq> []" and "\<not> is_space (hd s)" and "\<not> is_space c"
  shows "\<not> is_space (hd (squeeze c s))"
  using assms by (cases s) (auto split: list.splits)

lemma dropWhile_hd_nonspace:
  "dropWhile P s \<noteq> [] \<Longrightarrow> \<not> P (hd (dropWhile P s))"
  using hd_dropWhile by blast

lemma tight_squeeze_same:
  assumes "\<not> is_space c"
  shows "tight c (squeeze c s)"
  using assms
proof (induction c s rule: squeeze.induct)
  case (1 c)
  show ?case by (simp add: tight_Nil)
next
  case (2 c a s)
  note ns = 2(4)
  show ?case
  proof (cases "dropWhile is_space (a # s)")
    case Nil
    then have sa: "is_space a" and ds: "dropWhile is_space s = []"
      by (auto split: if_splits)
    have eq: "squeeze c (a # s) = a # squeeze c s" using Nil by simp
    have t: "tight c (squeeze c s)" using 2(1) [OF Nil ns] .
    have "squeeze c s \<noteq> [] \<Longrightarrow> hd (squeeze c s) \<noteq> c"
      using squeeze_hd_c [of s c] ns ds by (auto simp: squeeze_Nil_iff)
    moreover have "a \<noteq> c" using sa ns by auto
    ultimately show ?thesis unfolding eq tight_Cons using t by blast
  next
    case (Cons c' t)
    show ?thesis
    proof (cases "c' = c")
      case True
      let ?u = "dropWhile is_space t"
      have eq: "squeeze c (a # s) = c # squeeze c ?u" using Cons True by simp
      have t': "tight c (squeeze c ?u)" using 2(2) [OF Cons True ns] .
      have "squeeze c ?u \<noteq> [] \<Longrightarrow> \<not> is_space (hd (squeeze c ?u))"
        using squeeze_hd_nonspace [of ?u c] dropWhile_hd_nonspace [of is_space t] ns
        by (simp add: squeeze_Nil_iff)
      then show ?thesis unfolding eq tight_Cons using t' ns by blast
    next
      case False
      have eq: "squeeze c (a # s) = a # squeeze c s" using Cons False by simp
      have t': "tight c (squeeze c s)" using 2(3) [OF Cons False ns] .
      have ac: "a \<noteq> c" using Cons False ns by (auto split: if_splits)
      have "squeeze c s \<noteq> [] \<Longrightarrow> is_space a \<Longrightarrow> hd (squeeze c s) \<noteq> c"
      proof
        assume n: "squeeze c s \<noteq> []" and sa: "is_space a" and h: "hd (squeeze c s) = c"
        from n have "s \<noteq> []" by (simp add: squeeze_Nil_iff)
        then obtain t' where "dropWhile is_space s = c # t'"
          using squeeze_hd_c [OF _ h ns] by blast
        then have "dropWhile is_space (a # s) = c # t'" using sa by simp
        with Cons False show False by simp
      qed
      then show ?thesis unfolding eq tight_Cons using t' ac by blast
    qed
  qed
qed

lemma tight_squeeze_other:
  assumes "\<not> is_space c" and "d \<noteq> c" and "tight d s"
  shows "tight d (squeeze c s)"
  using assms
proof (induction c s rule: squeeze.induct)
  case (1 c)
  show ?case by (simp add: tight_Nil)
next
  case (2 c a s)
  note ns = 2(4) and dc = 2(5) and td = 2(6)
  have gap: "tight d (a # squeeze c s)" if ih: "tight d (squeeze c s)"
  proof -
    have "s \<noteq> [] \<Longrightarrow> \<not> (is_space a \<and> hd s = d) \<and> \<not> (a = d \<and> is_space (hd s))"
      using td unfolding tight_Cons by blast
    moreover have "s \<noteq> [] \<Longrightarrow> hd (squeeze c s) = hd s \<or> hd (squeeze c s) = c"
      by (rule squeeze_hd_cases)
    ultimately have "squeeze c s \<noteq> [] \<Longrightarrow>
        \<not> (is_space a \<and> hd (squeeze c s) = d) \<and> \<not> (a = d \<and> is_space (hd (squeeze c s)))"
      using ns dc by (auto simp: squeeze_Nil_iff)
    then show ?thesis unfolding tight_Cons using ih by blast
  qed
  have ts: "tight d s" using td unfolding tight_Cons by (auto simp: tight_Nil)
  show ?case
  proof (cases "dropWhile is_space (a # s)")
    case Nil
    have eq: "squeeze c (a # s) = a # squeeze c s" using Nil by simp
    show ?thesis unfolding eq using gap 2(1) [OF Nil ns dc ts] by blast
  next
    case (Cons c' t)
    show ?thesis
    proof (cases "c' = c")
      case True
      let ?u = "dropWhile is_space t"
      have eq: "squeeze c (a # s) = c # squeeze c ?u" using Cons True by simp
      have "tight d (c' # t)" using tight_dropWhile [OF td, of is_space] Cons by simp
      then have "tight d t" unfolding tight_Cons by (auto simp: tight_Nil)
      then have "tight d ?u" by (rule tight_dropWhile)
      then have "tight d (squeeze c ?u)" using 2(2) [OF Cons True ns dc] by blast
      then show ?thesis unfolding eq tight_Cons using ns dc by auto
    next
      case False
      have eq: "squeeze c (a # s) = a # squeeze c s" using Cons False by simp
      show ?thesis unfolding eq using gap 2(3) [OF Cons False ns dc ts] by blast
    qed
  qed
qed

lemma tight_space_run:
  assumes "tight c (a # s)" and "is_space a" and "dropWhile is_space (a # s) = c # t"
  shows False
  using assms
proof (induction s arbitrary: a)
  case Nil
  then show ?case by simp
next
  case (Cons b s)
  show ?case
  proof (cases "is_space b")
    case True
    have "tight c (b # s)" using Cons.prems(1) unfolding tight_Cons [of c a] by simp
    moreover have "dropWhile is_space (b # s) = c # t" using Cons.prems by simp
    ultimately show ?thesis using Cons.IH True by blast
  next
    case False
    then have "b = c" using Cons.prems by simp
    then show ?thesis using Cons.prems(1,2) unfolding tight_Cons [of c a] by simp
  qed
qed

lemma squeeze_tight:
  assumes "\<not> is_space c" and "tight c s"
  shows "squeeze c s = s"
  using assms
proof (induction c s rule: squeeze.induct)
  case (1 c)
  show ?case by simp
next
  case (2 c a s)
  note ns = 2(4) and tc = 2(5)
  have ts: "tight c s" using tc unfolding tight_Cons by (auto simp: tight_Nil)
  show ?case
  proof (cases "dropWhile is_space (a # s)")
    case Nil
    then show ?thesis using 2(1) [OF Nil ns ts] by simp
  next
    case (Cons c' t)
    show ?thesis
    proof (cases "c' = c")
      case True
      have nsa: "\<not> is_space a" using tight_space_run [OF tc] Cons True by blast
      then have ac: "a = c" and ts': "t = s" using Cons True by auto
      have "s \<noteq> [] \<Longrightarrow> \<not> is_space (hd s)" using tc ac unfolding tight_Cons by blast
      then have "dropWhile is_space s = s" by (cases s) auto
      then have "squeeze c (dropWhile is_space t) = s"
        using 2(2) [OF Cons True ns] ts ts' by simp
      then show ?thesis using Cons True ac by simp
    next
      case False
      then show ?thesis using 2(3) [OF Cons False ns ts] Cons by simp
    qed
  qed
qed


lemma length_squeeze: "length (squeeze c s) \<le> length s"
proof (induction c s rule: squeeze.induct)
  case (1 c)
  show ?case by simp
next
  case (2 c a s)
  show ?case
  proof (cases "dropWhile is_space (a # s)")
    case Nil
    then show ?thesis using 2(1) [OF Nil] by simp
  next
    case (Cons c' t)
    show ?thesis
    proof (cases "c' = c")
      case True
      have "length (dropWhile is_space t) < length (a # s)"
        using Cons by (rule length_dropWhile_tail)
      then show ?thesis using 2(2) [OF Cons True] Cons True by simp
    next
      case False
      then show ?thesis using 2(3) [OF Cons False] Cons by simp
    qed
  qed
qed

lemma dropWhile_fix_iff: "dropWhile P s = s \<longleftrightarrow> (s = [] \<or> \<not> P (hd s))"
proof (cases s)
  case Nil
  then show ?thesis by simp
next
  case (Cons a t)
  have "dropWhile P t \<noteq> a # t"
  proof
    assume "dropWhile P t = a # t"
    then have "length (dropWhile P t) = Suc (length t)" by simp
    with length_dropWhile_le [of P t] show False by simp
  qed
  then show ?thesis using Cons by simp
qed

lemma length_strip_inner: "length (strip_chars P s) \<le> length (dropWhile P s)"
  using length_dropWhile_le [of P "rev (dropWhile P s)"] by (simp add: strip_chars_def)

lemma strip_chars_fix_iff:
  "strip_chars P s = s \<longleftrightarrow> (s = [] \<or> (\<not> P (hd s) \<and> \<not> P (last s)))"
proof (cases "s = []")
  case True
  then show ?thesis by (simp add: strip_chars_def)
next
  case False
  show ?thesis
  proof (cases "P (hd s)")
    case True
    have "length (dropWhile P s) < length s"
      using False True by (cases s) (auto simp: less_Suc_eq_le length_dropWhile_le)
    moreover have "length (strip_chars P s) \<le> length (dropWhile P s)"
      by (rule length_strip_inner)
    ultimately have "strip_chars P s \<noteq> s" by auto
    then show ?thesis using True False by simp
  next
    case nh: False
    then have d: "dropWhile P s = s" using False by (simp add: dropWhile_fix_iff)
    have "strip_chars P s = s \<longleftrightarrow> dropWhile P (rev s) = rev s"
      unfolding strip_chars_def d by (rule rev_swap)
    also have "\<dots> \<longleftrightarrow> \<not> P (hd (rev s))"
      using False by (simp add: dropWhile_fix_iff)
    also have "\<dots> \<longleftrightarrow> \<not> P (last s)" using False by (simp add: hd_rev)
    finally show ?thesis using nh False by simp
  qed
qed

lemma length_strip_chars: "length (strip_chars P s) \<le> length s"
proof -
  have "length (strip_chars P s) \<le> length (dropWhile P s)"
    by (rule length_strip_inner)
  also have "\<dots> \<le> length s" by (rule length_dropWhile_le)
  finally show ?thesis .
qed

lemma strip_chars_shorter:
  assumes "strip_chars P s \<noteq> s"
  shows "length (strip_chars P s) < length s"
proof -
  from assms have ne: "s \<noteq> []" and c: "P (hd s) \<or> P (last s)"
    using strip_chars_fix_iff [of P s] by auto
  show ?thesis
  proof (cases "P (hd s)")
    case True
    have "length (dropWhile P s) < length s"
      using ne True by (cases s) (auto simp: less_Suc_eq_le length_dropWhile_le)
    moreover have "length (strip_chars P s) \<le> length (dropWhile P s)"
      by (rule length_strip_inner)
    ultimately show ?thesis by simp
  next
    case False
    then have d: "dropWhile P s = s" using ne by (simp add: dropWhile_fix_iff)
    have "P (hd (rev s))" using c False ne by (simp add: hd_rev)
    moreover have "rev s \<noteq> []" using ne by simp
    ultimately have "length (dropWhile P (rev s)) < length (rev s)"
      by (cases "rev s") (auto simp: less_Suc_eq_le length_dropWhile_le)
    then show ?thesis by (simp add: strip_chars_def d)
  qed
qed

lemma strip_chars_idem: "strip_chars P (strip_chars P s) = strip_chars P s"
proof -
  let ?t = "strip_chars P s"
  have "?t = [] \<or> (\<not> P (hd ?t) \<and> \<not> P (last ?t))"
  proof (cases "?t = []")
    case False
    let ?d = "dropWhile P (rev (dropWhile P s))"
    have dn: "?d \<noteq> []" using False by (simp add: strip_chars_def)
    then have a: "\<not> P (hd ?d)" by (rule dropWhile_hd_nonspace)
    have l: "last ?t = hd ?d" using dn by (simp add: strip_chars_def last_rev)
    have "rev (dropWhile P s) \<noteq> []"
    proof
      assume a: "rev (dropWhile P s) = []"
      have e: "?d = []" by (simp only: a dropWhile.simps(1))
      show False using dn e by (rule notE)
    qed
    then have dsn: "dropWhile P s \<noteq> []" unfolding rev_is_Nil_conv .
    let ?pre = "takeWhile P (rev (dropWhile P s))"
    have "rev (rev (dropWhile P s)) = rev (?pre @ ?d)"
      by (simp only: takeWhile_dropWhile_id)
    then have "dropWhile P s = rev ?d @ rev ?pre"
      by (simp only: rev_rev_ident rev_append)
    moreover have "rev ?d \<noteq> []" using dn by simp
    ultimately have "hd (dropWhile P s) = hd (rev ?d)"
      using hd_append2 [of "rev ?d" "rev ?pre"] by simp
    then have "hd ?t = hd (dropWhile P s)" by (simp add: strip_chars_def)
    then have "\<not> P (hd ?t)" using dropWhile_hd_nonspace [OF dsn] by simp
    then show ?thesis using a l by simp
  qed simp
  then show ?thesis by (simp add: strip_chars_fix_iff)
qed

lemma strip_chars_lower:
  assumes "\<And>a. P (lower_char a) = P a"
  shows "strip_chars P (py_lower s) = py_lower (strip_chars P s)"
proof -
  have d: "\<And>t. dropWhile P (py_lower t) = py_lower (dropWhile P t)"
    subgoal for t by (induction t) (simp_all add: py_lower_def assms)
    done
  have r: "\<And>t. rev (py_lower t) = py_lower (rev t)" by (simp add: py_lower_def rev_map)
  show ?thesis unfolding strip_chars_def d r ..
qed

lemma normalize_email_unfold:
  "s \<noteq> [] \<Longrightarrow> normalize_email s =
     py_lower (py_strip (squeeze (CHR ''.'') (squeeze (CHR ''@'')
        (strip_chars (\<lambda>c. c \<in> set ''()'') s))))"
proof -
  have a: "\<not> is_space (CHR ''@'')" and b: "\<not> is_space (CHR ''.'')"
    by (simp_all add: is_space_def cp_def)
  have "re_sub (around (CHR ''@'')) ''@'' = squeeze (CHR ''@'')"
    using re_sub_around [OF a] by blast
  moreover have "re_sub (around (CHR ''.'')) ''.'' = squeeze (CHR ''.'')"
    using re_sub_around [OF b] by blast
  ultimately show "s \<noteq> [] \<Longrightarrow> normalize_email s =
     py_lower (py_strip (squeeze (CHR ''.'') (squeeze (CHR ''@'')
        (strip_chars (\<lambda>c. c \<in> set ''()'') s))))"
    by (simp add: normalize_email_def Let_def)
qed

lemma normalize_email_tight:
  "tight (CHR ''@'') (normalize_email s) \<and> tight (CHR ''.'') (normalize_email s)"
proof (cases "s = []")
  case True
  then show ?thesis by (simp add: normalize_email_def tight_Nil)
next
  case False
  have a: "\<not> is_space (CHR ''@'')" and b: "\<not> is_space (CHR ''.'')"
    by (simp_all add: is_space_def cp_def)
  have fa: "\<And>x. lower_char x = CHR ''@'' \<longleftrightarrow> x = CHR ''@''"
    by (rule lower_char_fix) (simp add: cp_def)
  have fb: "\<And>x. lower_char x = CHR ''.'' \<longleftrightarrow> x = CHR ''.''"
    by (rule lower_char_fix) (simp add: cp_def)
  let ?z = "strip_chars (\<lambda>c. c \<in> set ''()'') s"
  have "tight (CHR ''@'') (squeeze (CHR ''@'') ?z)" by (rule tight_squeeze_same [OF a])
  then have "tight (CHR ''@'') (squeeze (CHR ''.'') (squeeze (CHR ''@'') ?z))"
    using tight_squeeze_other [OF b, of "CHR ''@''"] by simp
  then have 1: "tight (CHR ''@'') (normalize_email s)"
    unfolding normalize_email_unfold [OF False] py_strip_def
    by (simp only: tight_lower [OF fa] tight_strip)
  have "tight (CHR ''.'') (squeeze (CHR ''.'') (squeeze (CHR ''@'') ?z))"
    by (rule tight_squeeze_same [OF b])
  then have 2: "tight (CHR ''.'') (normalize_email s)"
    unfolding normalize_email_unfold [OF False] py_strip_def
    by (simp only: tight_lower [OF fb] tight_strip)
  from 1 2 show ?thesis ..
qed

lemma normalize_email_lowered: "py_lower (normalize_email s) = normalize_email s"
proof (cases "s = []")
  case True
  then show ?thesis by (simp add: normalize_email_def py_lower_def)
next
  case False
  show ?thesis unfolding normalize_email_unfold [OF False] by (rule py_lower_idem)
qed

lemma normalize_email_stripped: "py_strip (normalize_email s) = normalize_email s"
proof -
  show "py_strip (normalize_email s) = normalize_email s"
  proof (cases "s = []")
    case True
    then show ?thesis by (simp add: normalize_email_def py_strip_def strip_chars_def)
  next
    case False
    show ?thesis
      unfolding normalize_email_unfold [OF False] py_strip_def
      by (simp add: strip_chars_lower is_space_lower_char strip_chars_idem)
  qed
qed

lemma length_normalize_email:
  "length (normalize_email s) \<le> length (strip_chars (\<lambda>c. c \<in> set ''()'') s)"
proof (cases "s = []")
  case True
  then show ?thesis by (simp add: normalize_email_def)
next
  case False
  let ?z = "strip_chars (\<lambda>c. c \<in> set ''()'') s"
  have "length (normalize_email s)
        = length (py_strip (squeeze (CHR ''.'') (squeeze (CHR ''@'') ?z)))"
    unfolding normalize_email_unfold [OF False] by (simp add: py_lower_def)
  also have "\<dots> \<le> length (squeeze (CHR ''.'') (squeeze (CHR ''@'') ?z))"
    unfolding py_strip_def by (rule length_strip_chars)
  also have "\<dots> \<le> length (squeeze (CHR ''@'') ?z)" by (rule length_squeeze)
  also have "\<dots> \<le> length ?z" by (rule length_squeeze)
  finally show ?thesis .
qed

text \<open>
  C7 as stated: normalization is idempotent on every input. A parenthesis that
  whitespace shields from \<open>strip('()')\<close> survives the first pass, loses its shield
  to \<open>strip()\<close>, and is removed by the second pass.
\<close>

theorem normalize_email_twice_counterexample:
  "normalize_email (normalize_email '' (info@example.com)'') \<noteq> normalize_email '' (info@example.com)''"
  by code_simp

text \<open>
  C7, amended. Normalizing twice equals normalizing once exactly when the normalized
  text is empty or neither begins nor ends with a parenthesis.
\<close>

theorem normalize_email_idempotent_iff:
  "normalize_email (normalize_email x) = normalize_email x
   \<longleftrightarrow> (normalize_email x = []
        \<or> (hd (normalize_email x) \<notin> set ''()'' \<and> last (normalize_email x) \<notin> set ''()''))"
proof -
  let ?y = "normalize_email x"
  let ?P = "\<lambda>c. c \<in> set ''()''"
  have a: "\<not> is_space (CHR ''@'')" and b: "\<not> is_space (CHR ''.'')"
    by (simp_all add: is_space_def cp_def)
  have fx: "strip_chars ?P ?y = ?y \<longleftrightarrow> (?y = [] \<or> (\<not> ?P (hd ?y) \<and> \<not> ?P (last ?y)))"
    by (rule strip_chars_fix_iff)
  show ?thesis
  proof (cases "strip_chars ?P ?y = ?y")
    case True
    have "normalize_email ?y = ?y"
    proof (cases "?y = []")
      case True
      then show ?thesis by (simp add: normalize_email_def)
    next
      case False
      have "normalize_email ?y = py_lower (py_strip (squeeze (CHR ''.'') (squeeze (CHR ''@'') ?y)))"
        unfolding normalize_email_unfold [OF False] True ..
      also have "squeeze (CHR ''@'') ?y = ?y"
        using squeeze_tight [OF a] normalize_email_tight by blast
      also have "squeeze (CHR ''.'') ?y = ?y"
        using squeeze_tight [OF b] normalize_email_tight by blast
      also have "py_strip ?y = ?y" by (rule normalize_email_stripped)
      also have "py_lower ?y = ?y" by (rule normalize_email_lowered)
      finally show ?thesis .
    qed
    then show ?thesis using True fx by simp
  next
    case False
    have "length (normalize_email ?y) \<le> length (strip_chars ?P ?y)"
      by (rule length_normalize_email)
    also have "\<dots> < length ?y" using False by (rule strip_chars_shorter)
    finally have "normalize_email ?y \<noteq> ?y" by auto
    then show ?thesis using False fx by simp
  qed
qed

theorem normalize_email_idempotent_iff_witness:
  "normalize_email ''(John . Doe  @ Example . COM )'' = ''john.doe@example.com''
   \<and> hd ''john.doe@example.com'' \<notin> set ''()'' \<and> last ''john.doe@example.com'' \<notin> set ''()''
   \<and> normalize_email (normalize_email ''(John . Doe  @ Example . COM )'')
       = normalize_email ''(John . Doe  @ Example . COM )''"
proof -
  have n: "normalize_email ''(John . Doe  @ Example . COM )'' = ''john.doe@example.com''"
    by code_simp
  have h: "hd ''john.doe@example.com'' \<notin> set ''()'' \<and> last ''john.doe@example.com'' \<notin> set ''()''"
    by simp
  show ?thesis
    using normalize_email_idempotent_iff [of "''(John . Doe  @ Example . COM )''"] h
    unfolding n by blast
qed

section \<open>Extraction with source tags\<close>

lemma standard_pattern_first: "standard_pattern \<in> set email_patterns"
  by (simp add: standard_pattern_def email_patterns_def)

lemma found_info:
  "''info@example.com'' \<in> extract_emails_from_content ''info@example.com''"
proof -
  have f: "findall standard_pattern ''info@example.com'' = [''info@example.com'']"
    by code_simp
  have n: "normalize_email ''info@example.com'' = ''info@example.com''"
    by code_simp
  have v: "is_valid_email ''info@example.com''"
    by code_simp
  have "''info@example.com'' \<in> keep_valid (findall standard_pattern ''info@example.com'')"
    unfolding f keep_valid_def using n v by simp
  then have "''info@example.com''
      \<in> (\<Union>pattern \<in> set email_patterns. keep_valid (findall pattern ''info@example.com''))"
    using standard_pattern_first by blast
  then show ?thesis
    unfolding extract_emails_from_content_def by simp
qed

lemma generated_info:
  "''info@example.com'' \<in> set (generate_common_emails ''example.com'')"
  by code_simp

text \<open>
  C3 as stated: the outputs found, mailto and generated are pairwise disjoint sets.
  \<open>extract_all_emails\<close> returns the set of found addresses (text and mailto together),
  the set of generated addresses and the source dictionary; an address observed in the
  text that is also a candidate of the domain is in both sets.
\<close>

theorem extract_all_emails_overlap_counterexample:
  "''info@example.com''
     \<in> fst (extract_all_emails ''info@example.com'' None (Some ''example.com''))
   \<and> ''info@example.com''
     \<in> fst (snd (extract_all_emails ''info@example.com'' None (Some ''example.com'')))"
  using found_info generated_info
  by (simp add: extract_all_emails_def Let_def generated_list_of_def)

text \<open>
  C3, amended. The found set is the union of the addresses observed in the text and in
  mailto links, the generated set holds the candidates, and the source dictionary is
  defined exactly on their union and gives each address one tag: \<open>generated\<close> when
  the address is a candidate, else \<open>mailto_link\<close> when it comes from a mailto link,
  else \<open>found\<close>.
\<close>

theorem extract_all_emails_sources:
  "case extract_all_emails content soup domain of
     (found, generated, sources) \<Rightarrow>
       found = extract_emails_from_content content \<union> link_emails_of soup
     \<and> generated = set (generated_list_of domain)
     \<and> dom sources = found \<union> generated
     \<and> (\<forall>e. sources e = Some ''generated'' \<longleftrightarrow> e \<in> generated)
     \<and> (\<forall>e. sources e = Some ''mailto_link'' \<longleftrightarrow> e \<in> link_emails_of soup \<and> e \<notin> generated)
     \<and> (\<forall>e. sources e = Some ''found'' \<longleftrightarrow>
              e \<in> extract_emails_from_content content \<and> e \<notin> link_emails_of soup
              \<and> e \<notin> generated)"
  by (auto simp: extract_all_emails_def tag_all_def Let_def dom_def split: if_splits)

theorem extract_all_emails_sources_witness:
  "snd (snd (extract_all_emails ''Contact: info@example.com''
               (Some [''mailto:Sales@Example.com?subject=hi'']) (Some ''example.com'')))
     ''sales@example.com'' = Some ''generated''
   \<and> ''sales@example.com'' \<in> link_emails_of (Some [''mailto:Sales@Example.com?subject=hi''])"
proof -
  have g: "''sales@example.com'' \<in> set (generated_list_of (Some ''example.com''))"
    by code_simp
  have l: "''sales@example.com'' \<in> link_emails_of (Some [''mailto:Sales@Example.com?subject=hi''])"
    by code_simp
  show ?thesis
    using extract_all_emails_sources [of "''Contact: info@example.com''"
        "Some [''mailto:Sales@Example.com?subject=hi'']" "Some ''example.com''"] g l
    by (auto split: prod.splits)
qed

section \<open>The crawl\<close>

lemma set_prioritize_links: "set (prioritize_links_by_relevance xs) = set xs"
  by (simp add: prioritize_links_by_relevance_def sorted_reverse_def)

lemma length_slice_to: "0 \<le> n \<Longrightarrow> int (length (slice_to n xs)) \<le> n"
  by (simp add: slice_to_def)

lemma set_slice_to: "set (slice_to n xs) \<subseteq> set xs"
  by (auto simp: slice_to_def dest: in_set_takeD)

lemma set_unique_urls: "set (unique_urls seen xs) \<subseteq> set xs"
  by (induction xs arbitrary: seen) auto

lemma set_prioritize_urls: "set (prioritize_urls cfg urls) \<subseteq> set urls"
proof -
  have "set (prioritize_urls cfg urls)
        \<subseteq> set (prioritize_links_by_relevance (unique_urls {} urls))"
    unfolding prioritize_urls_def by (rule set_slice_to)
  also have "\<dots> = set (unique_urls {} urls)" by (rule set_prioritize_links)
  also have "\<dots> \<subseteq> set urls" by (rule set_unique_urls)
  finally show ?thesis .
qed

lemma add_links_size: "inv_size cfg st \<Longrightarrow> inv_size cfg (add_links cfg depth st links)"
proof (induction links arbitrary: st)
  case Nil
  then show ?case by simp
next
  case (Cons link links)
  show ?case
  proof (cases "link \<notin> discovered_urls st \<and> int (card (discovered_urls st)) < max_pages cfg")
    case True
    let ?st = "st\<lparr>discovered_urls := insert link (discovered_urls st),
                 discovered_history := insert link (discovered_urls st) # discovered_history st,
                 urls_to_crawl := (if depth < max_depth cfg then urls_to_crawl st @ [link]
                                   else urls_to_crawl st)\<rparr>"
    have f: "finite (discovered_urls st)" using Cons.prems by (simp add: inv_size_def)
    have "int (card (insert link (discovered_urls st))) \<le> max_pages cfg"
      using True f by simp
    then have "inv_size cfg ?st" using Cons.prems f by (simp add: inv_size_def)
    then have "inv_size cfg (add_links cfg depth ?st links)" by (rule Cons.IH)
    then show ?thesis using True by simp
  next
    case False
    then have "add_links cfg depth st (link # links) = add_links cfg depth st links"
      by auto
    then show ?thesis using Cons.IH [OF Cons.prems] by simp
  qed
qed

lemma add_links_accepted:
  "inv_accepted w seed st \<Longrightarrow> \<forall>link \<in> set links. accepted w seed link
   \<Longrightarrow> inv_accepted w seed (add_links cfg depth st links)"
proof (induction links arbitrary: st)
  case Nil
  then show ?case by simp
next
  case (Cons link links)
  show ?case
  proof (cases "link \<notin> discovered_urls st \<and> int (card (discovered_urls st)) < max_pages cfg")
    case True
    let ?st = "st\<lparr>discovered_urls := insert link (discovered_urls st),
                 discovered_history := insert link (discovered_urls st) # discovered_history st,
                 urls_to_crawl := (if depth < max_depth cfg then urls_to_crawl st @ [link]
                                   else urls_to_crawl st)\<rparr>"
    have "inv_accepted w seed ?st" using Cons.prems by (simp add: inv_accepted_def)
    moreover have "\<forall>link \<in> set links. accepted w seed link" using Cons.prems(2) by simp
    ultimately have "inv_accepted w seed (add_links cfg depth ?st links)" by (rule Cons.IH)
    then show ?thesis using True by simp
  next
    case False
    then have "add_links cfg depth st (link # links) = add_links cfg depth st links"
      by auto
    moreover have "\<forall>link \<in> set links. accepted w seed link" using Cons.prems(2) by simp
    ultimately show ?thesis using Cons.IH [OF Cons.prems(1)] by simp
  qed
qed

lemma filtered_links_accepted:
  assumes "\<forall>S. finite S \<longrightarrow> set (iteration_order w S) = S"
  shows "\<forall>link \<in> set (filter_and_prioritize_links st
            (iteration_order w (extract_links w anchors seed)) seed). accepted w seed link"
proof
  fix link
  assume "link \<in> set (filter_and_prioritize_links st
            (iteration_order w (extract_links w anchors seed)) seed)"
  then have l: "link \<in> set (iteration_order w (extract_links w anchors seed))"
    and c: "contains link (domain_parts seed)"
    and s: "\<not> matches_skip_pattern link" "\<not> has_skip_extension link"
    by (simp_all add: filter_and_prioritize_links_def set_prioritize_links)
  have "finite (extract_links w anchors seed)" by (simp add: extract_links_def)
  then have "link \<in> extract_links w anchors seed" using l assms by blast
  then have "\<exists>parsed. netloc parsed = urlparse_netloc w seed \<and> link = clean_url parsed"
    by (auto simp: extract_links_def is_internal_link_def)
  then show "accepted w seed link" using c s by (simp add: accepted_def)
qed

lemma process_url_size: "inv_size cfg st \<Longrightarrow> inv_size cfg (process_url cfg w seed depth st url)"
proof (cases "fetch w url")
  case (Page anchors)
  assume i: "inv_size cfg st"
  let ?st = "st\<lparr>visited_urls := insert url (visited_urls st),
                   crawled_urls := insert url (crawled_urls st)\<rparr>"
  have "inv_size cfg ?st" using i by (simp add: inv_size_def)
  then show ?thesis unfolding process_url_def Page
    by (simp add: Let_def add_links_size)
qed (simp_all add: process_url_def inv_size_def)

lemma process_url_accepted:
  assumes "\<forall>S. finite S \<longrightarrow> set (iteration_order w S) = S"
      and i: "inv_accepted w seed st"
  shows "inv_accepted w seed (process_url cfg w seed depth st url)"
proof (cases "fetch w url")
  case (Page anchors)
  let ?st = "st\<lparr>visited_urls := insert url (visited_urls st),
                   crawled_urls := insert url (crawled_urls st)\<rparr>"
  have "inv_accepted w seed ?st" using i by (simp add: inv_accepted_def)
  then have "inv_accepted w seed (add_links cfg depth ?st
      (filter_and_prioritize_links ?st (iteration_order w (extract_links w anchors seed)) seed))"
    using filtered_links_accepted [OF assms(1)] by (rule add_links_accepted)
  then show ?thesis unfolding process_url_def Page by (simp add: Let_def)
next
  case Failed
  then show ?thesis using i by (simp add: process_url_def inv_accepted_def)
next
  case Raised
  then show ?thesis using i by (simp add: process_url_def inv_accepted_def)
qed

lemma process_batch_size:
  "inv_size cfg st \<Longrightarrow> inv_size cfg (process_batch cfg w seed depth st urls)"
  by (induction urls arbitrary: st) (simp_all add: process_url_size)

lemma process_batch_accepted:
  assumes "\<forall>S. finite S \<longrightarrow> set (iteration_order w S) = S"
  shows "inv_accepted w seed st \<Longrightarrow> inv_accepted w seed (process_batch cfg w seed depth st urls)"
  by (induction urls arbitrary: st) (simp_all add: process_url_accepted [OF assms])

lemma crawl_levels_size:
  "inv_size cfg st \<Longrightarrow> inv_size cfg (crawl_levels cfg w seed st depths)"
proof (induction depths arbitrary: st)
  case Nil
  then show ?case by simp
next
  case (Cons depth depths)
  have "inv_size cfg (st\<lparr>urls_to_crawl := []\<rparr>)" using Cons.prems by (simp add: inv_size_def)
  then have "inv_size cfg (process_batch cfg w seed depth (st\<lparr>urls_to_crawl := []\<rparr>) (urls_to_crawl st))"
    by (rule process_batch_size)
  then show ?case using Cons.IH Cons.prems by (simp add: Let_def)
qed

lemma crawl_levels_accepted:
  assumes "\<forall>S. finite S \<longrightarrow> set (iteration_order w S) = S"
  shows "inv_accepted w seed st \<Longrightarrow> inv_accepted w seed (crawl_levels cfg w seed st depths)"
proof (induction depths arbitrary: st)
  case Nil
  then show ?case by simp
next
  case (Cons depth depths)
  have "inv_accepted w seed (st\<lparr>urls_to_crawl := []\<rparr>)"
    using Cons.prems by (simp add: inv_accepted_def)
  then have "inv_accepted w seed
      (process_batch cfg w seed depth (st\<lparr>urls_to_crawl := []\<rparr>) (urls_to_crawl st))"
    by (rule process_batch_accepted [OF assms])
  then show ?case using Cons.IH Cons.prems by (simp add: Let_def)
qed


lemma initial_size: "1 \<le> max_pages cfg \<Longrightarrow> inv_size cfg (initial_state seed)"
  by (simp add: inv_size_def initial_state_def)

lemma initial_accepted: "inv_accepted w seed (initial_state seed)"
  by (simp add: inv_accepted_def initial_state_def)

lemma crawl_end_size: "1 \<le> max_pages cfg \<Longrightarrow> inv_size cfg (crawl_end cfg w domain)"
  unfolding crawl_end_def by (rule crawl_levels_size, rule initial_size)

lemma crawl_end_accepted:
  assumes "\<forall>S. finite S \<longrightarrow> set (iteration_order w S) = S"
  shows "inv_accepted w (with_scheme domain) (crawl_end cfg w domain)"
  unfolding crawl_end_def by (rule crawl_levels_accepted [OF assms], rule initial_accepted)

lemma crawl_result_discovered:
  assumes "\<forall>S. finite S \<longrightarrow> set (iteration_order w S) = S"
  shows "set (crawl_company_website cfg w domain) \<subseteq> discovered_urls (crawl_end cfg w domain)"
proof -
  let ?st = "crawl_end cfg w domain"
  have f: "finite (discovered_urls ?st)"
    using crawl_end_accepted [OF assms] by (simp add: inv_accepted_def)
  have "set (prioritize_urls cfg (iteration_order w (discovered_urls ?st)))
        \<subseteq> set (iteration_order w (discovered_urls ?st))"
    by (rule set_prioritize_urls)
  also have "\<dots> = discovered_urls ?st" using assms f by blast
  finally show ?thesis by (auto simp: crawl_company_website_def Let_def)
qed

lemma crawl_result_length:
  "0 \<le> max_pages cfg \<Longrightarrow> int (length (crawl_company_website cfg w domain)) \<le> max_pages cfg"
  by (simp add: crawl_company_website_def Let_def prioritize_urls_def length_slice_to)

text \<open>
  C5 as stated: for every seed and configuration the discovered set never exceeds
  \<open>max_pages\<close> and no result URL has a denylisted extension. The seed URL enters the
  discovered set before any test: with \<open>max_pages = 0\<close> the discovered set has one
  element; and the seed is never passed through the link filter: for the seed
  \<open>example.zip\<close>, when its page cannot be fetched, the result is the seed URL, which
  ends with the denylisted \<open>.zip\<close>.
\<close>

theorem crawl_claim_counterexample:
  "{''https://example.com''}
     \<in> set (discovered_history
              (crawl_end \<lparr>bypass_robots = True, max_depth = 2, max_pages = 0\<rparr>
                 offline_world ''example.com''))
   \<and> int (card {''https://example.com''}) > 0
   \<and> crawl_company_website \<lparr>bypass_robots = True, max_depth = 2, max_pages = 50\<rparr>
        offline_world ''example.zip'' = [''https://example.zip'']
   \<and> has_skip_extension ''https://example.zip''"
proof -
  let ?cfg = "\<lparr>bypass_robots = True, max_depth = 2, max_pages = 50\<rparr>"
  have a: "{''https://example.com''}
     \<in> set (discovered_history
              (crawl_end \<lparr>bypass_robots = True, max_depth = 2, max_pages = 0\<rparr>
                 offline_world ''example.com''))"
    by code_simp
  have b: "int (card {''https://example.com''}) > 0" by simp
  have d: "discovered_urls (crawl_end ?cfg offline_world ''example.zip'')
           = {''https://example.zip''}"
    by code_simp
  have r: "raised (crawl_end ?cfg offline_world ''example.zip'') = False"
    by code_simp
  have k: "check_robots_txt ?cfg offline_world" by (simp add: check_robots_txt_def)
  have io: "iteration_order offline_world = sorted_list_of_set"
    by (simp add: offline_world_def)
  have p: "prioritize_urls ?cfg [''https://example.zip''] = [''https://example.zip'']"
    by (simp add: prioritize_urls_def prioritize_links_by_relevance_def sorted_reverse_def
          slice_to_def)
  have c: "crawl_company_website ?cfg offline_world ''example.zip'' = [''https://example.zip'']"
    unfolding crawl_company_website_def Let_def r d io using k p by simp
  have e: "has_skip_extension ''https://example.zip''" by code_simp
  from a b c e show ?thesis by blast
qed

text \<open>
  C5, amended. Whatever the network answers, and in whatever order sets are iterated:
  when \<open>max_pages\<close> is not negative the returned list has at most \<open>max_pages\<close>
  elements; when \<open>max_pages\<close> is at least 1 no value that the discovered set takes
  during the crawl has more than \<open>max_pages\<close> elements; and every URL of the result
  is the seed URL itself or a link that passed the filter: it contains the host text of
  the seed, its \<open>netloc\<close> is the \<open>netloc\<close> of the seed, and it matches no
  denylisted path pattern and no denylisted extension.
\<close>

theorem crawl_bounds:
  assumes "\<forall>S. finite S \<longrightarrow> set (iteration_order w S) = S"
  shows "(0 \<le> max_pages cfg \<longrightarrow>
            int (length (crawl_company_website cfg w domain)) \<le> max_pages cfg)
       \<and> (1 \<le> max_pages cfg \<longrightarrow>
            (\<forall>D \<in> set (discovered_history (crawl_end cfg w domain)).
               int (card D) \<le> max_pages cfg))
       \<and> (\<forall>url \<in> set (crawl_company_website cfg w domain).
            url = with_scheme domain
            \<or> (contains url (domain_parts (with_scheme domain))
               \<and> (\<exists>parsed. netloc parsed = urlparse_netloc w (with_scheme domain)
                            \<and> url = clean_url parsed)
               \<and> \<not> matches_skip_pattern url \<and> \<not> has_skip_extension url))"
proof (intro conjI impI ballI)
  assume "0 \<le> max_pages cfg"
  then show "int (length (crawl_company_website cfg w domain)) \<le> max_pages cfg"
    by (rule crawl_result_length)
next
  fix D
  assume "1 \<le> max_pages cfg" and "D \<in> set (discovered_history (crawl_end cfg w domain))"
  then show "int (card D) \<le> max_pages cfg"
    using crawl_end_size [of cfg w domain] by (simp add: inv_size_def)
next
  fix url
  assume "url \<in> set (crawl_company_website cfg w domain)"
  then have "url \<in> discovered_urls (crawl_end cfg w domain)"
    using crawl_result_discovered [OF assms] by blast
  then have "url = with_scheme domain \<or> accepted w (with_scheme domain) url"
    using crawl_end_accepted [OF assms, of domain cfg] by (simp add: inv_accepted_def)
  then show "url = with_scheme domain
            \<or> (contains url (domain_parts (with_scheme domain))
               \<and> (\<exists>parsed. netloc parsed = urlparse_netloc w (with_scheme domain)
                            \<and> url = clean_url parsed)
               \<and> \<not> matches_skip_pattern url \<and> \<not> has_skip_extension url)"
    by (simp add: accepted_def)
qed

theorem crawl_bounds_witness:
  "int (length (crawl_company_website \<lparr>bypass_robots = True, max_depth = 2, max_pages = 3\<rparr>
                   example_world ''example.com'')) \<le> 3
   \<and> list_all (\<lambda>D. int (card D) \<le> 3)
        (discovered_history
           (crawl_end \<lparr>bypass_robots = True, max_depth = 2, max_pages = 3\<rparr>
              example_world ''example.com''))
   \<and> list_all (\<lambda>url. url = with_scheme ''example.com'' \<or> contains url ''example.com'')
        (crawl_company_website \<lparr>bypass_robots = True, max_depth = 2, max_pages = 3\<rparr>
           example_world ''example.com'')"
proof -
  have h: "\<forall>S. finite S \<longrightarrow> set (iteration_order example_world S) = S"
    by (simp add: example_world_def)
  let ?cfg = "\<lparr>bypass_robots = True, max_depth = 2, max_pages = 3\<rparr>"
  note b = crawl_bounds [OF h, of ?cfg "''example.com''"]
  have m0: "0 \<le> max_pages ?cfg" and m1: "1 \<le> max_pages ?cfg" and m3: "max_pages ?cfg = 3"
    by simp_all
  have dp: "domain_parts (with_scheme ''example.com'') = ''example.com''"
    by code_simp
  have l: "int (length (crawl_company_website ?cfg example_world ''example.com'')) \<le> 3"
    using b m0 m3 by metis
  have s: "\<forall>D \<in> set (discovered_history (crawl_end ?cfg example_world ''example.com'')).
             int (card D) \<le> 3"
    using b m1 m3 by metis
  have u: "\<forall>url \<in> set (crawl_company_website ?cfg example_world ''example.com'').
             url = with_scheme ''example.com'' \<or> contains url ''example.com''"
    using b unfolding dp by blast
  from l s u show ?thesis unfolding list_all_iff by blast
qed

end
